theory Spec2Isabelle
  imports Complex_Main "HOL-Library.AList" "HOL-Library.Multiset"
begin

section \<open>Strings and the answer parser (saed/core/llm/parser.py)\<close>

text \<open>
  Python strings are modelled as \<open>string\<close>. \<open>str.strip()\<close> removes the characters for
  which \<open>str.isspace\<close> holds; below code point 256 these are the twelve listed here.
\<close>

definition is_space :: "char \<Rightarrow> bool" where
  "is_space c \<longleftrightarrow> c \<in> set [CHR 0x09, CHR 0x0A, CHR 0x0B, CHR 0x0C, CHR 0x0D,
     CHR 0x1C, CHR 0x1D, CHR 0x1E, CHR 0x1F, CHR 0x20, CHR 0x85, CHR 0xA0]"

definition strip :: "string \<Rightarrow> string" where
  "strip s = rev (dropWhile is_space (rev (dropWhile is_space s)))"

text \<open>\<open>s.split(sep)\<close> for a one-character separator: \<open>"".split(",") == [""]\<close>.\<close>

fun split_on :: "char \<Rightarrow> string \<Rightarrow> string list" where
  "split_on sep [] = [[]]"
| "split_on sep (c # cs) =
     (if c = sep then [] # split_on sep cs
      else (case split_on sep cs of
              [] \<Rightarrow> [[c]]
            | w # ws \<Rightarrow> (c # w) # ws))"

text \<open>\<open>sep.join(xs)\<close>.\<close>

fun join :: "string \<Rightarrow> string list \<Rightarrow> string" where
  "join sep [] = []"
| "join sep [x] = x"
| "join sep (x # y # ys) = x @ sep @ join sep (y # ys)"

text \<open>
  First occurrence of a pattern in a string: the text before it and the text after it.
\<close>

fun find_sub :: "string \<Rightarrow> string \<Rightarrow> (string \<times> string) option" where
  "find_sub pat [] = (if pat = [] then Some ([], []) else None)"
| "find_sub pat (c # cs) =
     (if take (length pat) (c # cs) = pat then Some ([], drop (length pat) (c # cs))
      else (case find_sub pat cs of
              None \<Rightarrow> None
            | Some (before, after) \<Rightarrow> Some (c # before, after)))"

text \<open>
  \<open>re.findall(r"<tag>(.*?)</tag>", response, flags=re.DOTALL)\<close> followed by
  \<open>matches[0].strip()\<close>: the leftmost match starts at the first opening tag that is
  followed by a closing tag, which is the first opening tag whenever any match exists,
  and the lazy group ends at the first closing tag after it.
\<close>

definition extract_between :: "string \<Rightarrow> string \<Rightarrow> string \<Rightarrow> string option" where
  "extract_between opening closing response =
     (case find_sub opening response of
        None \<Rightarrow> None
      | Some (before, rest) \<Rightarrow>
          (case find_sub closing rest of
             None \<Rightarrow> None
           | Some (body, after) \<Rightarrow> Some (strip body)))"

definition extract_answer :: "string \<Rightarrow> string option" where
  "extract_answer response = extract_between ''<answer>'' ''</answer>'' response"

definition extract_reasoning :: "string \<Rightarrow> string option" where
  "extract_reasoning response = extract_between ''<reasoning>'' ''</reasoning>'' response"

definition parse_class_list :: "string \<Rightarrow> string list" where
  "parse_class_list answer =
     (if answer = [] \<or> answer = ''-'' then [] else map strip (split_on CHR '','' answer))"

text \<open>\<open>str(n)\<close> for an integer, used in the error texts.\<close>

fun digits_of :: "nat \<Rightarrow> string" where
  "digits_of n =
     (if n < 10 then [char_of (48 + n)]
      else digits_of (n div 10) @ [char_of (48 + n mod 10)])"

definition str_int :: "int \<Rightarrow> string" where
  "str_int i = (if i < 0 then CHR ''-'' # digits_of (nat (- i)) else digits_of (nat i))"


section \<open>Python floats\<close>

text \<open>
  A Python \<open>float\<close> is an IEEE 754 binary64 number. A finite one is represented by the
  rational number it denotes. \<open>to_double\<close> rounds a rational to the nearest binary64
  value, ties to the even significand: for \<open>x > 0\<close> the exponent \<open>e\<close> is chosen with
  \<open>2^52 \<le> x / 2^e < 2^53\<close>, not below the subnormal exponent \<open>-1074\<close>, and \<open>x / 2^e\<close>
  is rounded to an integer. This is the value of a decimal literal and of the true
  division \<open>a / b\<close> of two integers, both of which Python rounds correctly. Overflow
  beyond the largest finite float does not arise for the quotients of list lengths
  formed here and is not modelled.
\<close>

function bit_length :: "int \<Rightarrow> int" where
  "bit_length n = (if n \<le> 0 then 0 else bit_length (n div 2) + 1)"
  by pat_completeness auto
termination
  by (relation "measure nat") auto

declare bit_length.simps [simp del]

definition round_half_even :: "rat \<Rightarrow> int" where
  "round_half_even x =
     (let f = \<lfloor>x\<rfloor>; r = x - of_int f in
      if r < 1 / 2 then f
      else if 1 / 2 < r then f + 1
      else if even f then f else f + 1)"

definition scale2 :: "rat \<Rightarrow> int \<Rightarrow> rat" where
  "scale2 x e = (if 0 \<le> e then x * 2 ^ nat e else x / 2 ^ nat (- e))"

definition binade :: "rat \<Rightarrow> int" where
  "binade x =
     (case quotient_of x of
        (a, b) \<Rightarrow>
          let k = bit_length a - bit_length b - 53 in
          if 2 ^ 53 \<le> scale2 x (- k) then k + 1 else k)"

definition to_double :: "rat \<Rightarrow> rat" where
  "to_double x =
     (if x = 0 then 0
      else let e = max (binade \<bar>x\<bar>) (- 1074);
               m = round_half_even (scale2 \<bar>x\<bar> (- e)) in
           (if x < 0 then - 1 else 1) * scale2 (of_int m) e)"

text \<open>\<open>a / b\<close> for integers \<open>a\<close> and \<open>b\<close>, \<open>b\<close> not zero.\<close>

definition true_div :: "int \<Rightarrow> int \<Rightarrow> rat" where
  "true_div a b = to_double (of_int a / of_int b)"

text \<open>
  A float read from the configuration may also be an infinity or not a number.
  \<open>float_ge x t\<close> is \<open>x >= t\<close> for a finite float \<open>x\<close>.
\<close>

datatype pyfloat = Finite rat | PosInf | NegInf | NaN

fun float_ge :: "rat \<Rightarrow> pyfloat \<Rightarrow> bool" where
  "float_ge x (Finite t) = (t \<le> x)"
| "float_ge x PosInf = False"
| "float_ge x NegInf = True"
| "float_ge x NaN = False"


section \<open>Trace records and the outside world (saed/core/executor/run_executor.py)\<close>

text \<open>
  The dataclasses of the executor. Timestamps, latencies and token counts are trace
  fields copied through from the clock and the provider; they take no part in any
  decision and are left out. Field names carry a short prefix where two dataclasses
  share a field name.
\<close>

record LLMRequestDetail =
  prompt :: string
  model :: string

record LLMResponseDetail =
  raw :: string
  reasoning :: "string option"
  answer :: string

record AgentResultDetail =
  agent_id :: int
  assigned_classes :: "string list"
  agent_llm_request :: "LLMRequestDetail option"
  agent_llm_response :: "LLMResponseDetail option"
  voted_classes :: "string list"
  agent_status :: string
  agent_error :: "string option"

record VoteSummaryDetail =
  class_name :: string
  vote_count :: int
  vs_total_agents :: int
  percentage :: rat
  vs_selected :: bool

record EDMResultDetail =
  edm_consensus_threshold :: pyfloat
  total_agents :: int
  votes_summary :: "VoteSummaryDetail list"
  agents :: "AgentResultDetail list"

record SelectionResult =
  selected :: "string list"
  status :: string
  error :: "string option"
  llm_request :: "LLMRequestDetail option"
  llm_response :: "LLMResponseDetail option"
  edm_result :: "EDMResultDetail option"

record BFSStepDetail =
  step_level :: int
  step_parent :: string
  step_candidates :: "string list"
  step_selected :: "string list"
  step_status :: string
  step_error :: "string option"
  step_llm_request :: "LLMRequestDetail option"
  step_llm_response :: "LLMResponseDetail option"
  step_edm_result :: "EDMResultDetail option"

record ColumnResultDetail =
  column_name :: string
  col_status :: string
  steps :: "BFSStepDetail list"
  final_paths :: "string list list"
  col_error :: "string option"

text \<open>The dictionary handed to the LLM chain.\<close>

record llm_data =
  d_table_name :: string
  d_table_in_markdown :: string
  d_column_name :: string
  d_current_level_ontology_classes :: string

text \<open>
  The world outside the program: the log of calls made to \<open>llm.generate\<close>, the log of
  arguments given to \<open>time.sleep\<close> (seconds), and the number of values drawn so far
  from the process-wide random generator.
\<close>

record world =
  llm_calls :: "llm_data list"
  sleeps :: "nat list"
  rng_pos :: nat

text \<open>
  The language model is an arbitrary external service: its outcome on a call may depend
  on everything it was asked before, so it is a function of the log of earlier calls and
  of the present request, and returns either the text of a raised exception (\<open>Inl\<close>) or
  the content of the response (\<open>Inr\<close>). The random generator is an arbitrary sequence of
  natural numbers. \<open>EDMOptions\<close> is a pydantic model of two integers and a float with no
  validators.
\<close>

type_synonym llm = "llm_data list \<Rightarrow> llm_data \<Rightarrow> string + string"

record EDMOptions =
  classes_per_agent :: int
  agents_per_class :: int
  consensus_threshold :: pyfloat

record DetailedSelector =
  mode :: string
  prompt_type :: string
  edm_options :: EDMOptions
  max_retries :: int
  model_name :: string
  llm_generate :: llm
  random_source :: "nat \<Rightarrow> nat"

datatype py_error = ZeroDivisionError | ValueError


section \<open>The retry wrapper and the single strategy\<close>

definition build_prompt :: "llm_data \<Rightarrow> string" where
  "build_prompt data =
     ''Table: '' @ d_table_name data @ [CHR 0x0A] @
     ''Column: '' @ d_column_name data @ [CHR 0x0A] @
     ''Table Preview:'' @ [CHR 0x0A] @ d_table_in_markdown data @ [CHR 0x0A] @
     ''Candidates: '' @ d_current_level_ontology_classes data"

text \<open>
  The body of \<open>for attempt in range(self.max_retries)\<close>. Everything inside the
  \<open>try\<close> is covered by \<open>except Exception\<close>, so an attempt either yields a response
  or leaves its exception text in \<open>last_error\<close>; after a failed attempt that is not the
  last one the wrapper sleeps \<open>2**attempt\<close> seconds. \<open>Inl last_error\<close> is the loop
  falling through.
\<close>

fun retry_attempts ::
  "DetailedSelector \<Rightarrow> llm_data \<Rightarrow> nat list \<Rightarrow> string option \<Rightarrow> world
     \<Rightarrow> (string option + LLMResponseDetail) \<times> world" where
  "retry_attempts sel data [] last_error w = (Inl last_error, w)"
| "retry_attempts sel data (attempt # rest) last_error w =
     (let w1 = w\<lparr>llm_calls := llm_calls w @ [data]\<rparr> in
      case llm_generate sel (llm_calls w) data of
        Inr raw_response \<Rightarrow>
          (Inr \<lparr>raw = raw_response,
                reasoning = (if prompt_type sel = ''cot''
                             then extract_reasoning raw_response else None),
                answer = (case extract_answer raw_response of
                            None \<Rightarrow> []
                          | Some a \<Rightarrow> a)\<rparr>, w1)
      | Inl e \<Rightarrow>
          retry_attempts sel data rest (Some e)
            (if int attempt < max_retries sel - 1
             then w1\<lparr>sleeps := sleeps w1 @ [2 ^ attempt]\<rparr> else w1))"

definition call_llm_with_retry ::
  "DetailedSelector \<Rightarrow> llm_data \<Rightarrow> world
     \<Rightarrow> (LLMRequestDetail \<times> LLMResponseDetail) \<times> world" where
  "call_llm_with_retry sel data w =
     (let request = \<lparr>prompt = build_prompt data, model = model_name sel\<rparr> in
      case retry_attempts sel data [0..<nat (max_retries sel)] None w of
        (Inr response, w') \<Rightarrow> ((request, response), w')
      | (Inl last_error, w') \<Rightarrow>
          ((request,
            \<lparr>raw = ''Error after '' @ str_int (max_retries sel) @ '' retries: '' @
                     (case last_error of None \<Rightarrow> ''None'' | Some e \<Rightarrow> e),
             reasoning = None,
             answer = []\<rparr>), w'))"

text \<open>
  \<open>select_single\<close>. The \<open>try\<close> around the wrapper has an \<open>except Exception\<close> branch
  that returns status \<open>failed\<close>; the wrapper, the parser and the list comprehension
  raise nothing on strings, so that branch has no counterpart here.
\<close>

definition select_single ::
  "DetailedSelector \<Rightarrow> string \<Rightarrow> string \<Rightarrow> string \<Rightarrow> string list \<Rightarrow> world
     \<Rightarrow> SelectionResult \<times> world" where
  "select_single sel table_name table_in_markdown column candidates w =
     (if candidates = [] then
        (\<lparr>selected = [], status = ''completed'', error = None,
          llm_request = None, llm_response = None, edm_result = None\<rparr>, w)
      else
        let data = \<lparr>d_table_name = table_name,
                    d_table_in_markdown = table_in_markdown,
                    d_column_name = column,
                    d_current_level_ontology_classes = join '', '' candidates\<rparr> in
        case call_llm_with_retry sel data w of
          ((request, response), w') \<Rightarrow>
            if answer response = [] \<or> answer response = ''-'' then
              (\<lparr>selected = [], status = ''completed'', error = None,
                llm_request = Some request, llm_response = Some response,
                edm_result = None\<rparr>, w')
            else
              let predicted = parse_class_list (answer response) in
              (\<lparr>selected = [cls \<leftarrow> predicted. cls \<in> set candidates],
                status = ''completed'', error = None,
                llm_request = Some request, llm_response = Some response,
                edm_result = None\<rparr>, w'))"


section \<open>The ensemble strategy\<close>

text \<open>
  \<open>random.sample(range(n), k)\<close> raises \<open>ValueError\<close> unless \<open>0 <= k <= len(range(n))\<close>
  and otherwise returns \<open>k\<close> distinct members of the range in some order. The model
  draws each member from what is left of the pool at the position the random source
  gives, so every ordered selection without replacement is the outcome of some source.
\<close>

fun draw_sample :: "(nat \<Rightarrow> nat) \<Rightarrow> nat \<Rightarrow> nat list \<Rightarrow> nat \<Rightarrow> nat list" where
  "draw_sample src pos pool 0 = []"
| "draw_sample src pos pool (Suc k) =
     (if pool = [] then []
      else let j = src pos mod length pool in
           pool ! j # draw_sample src (pos + 1) (take j pool @ drop (Suc j) pool) k)"

definition random_sample ::
  "(nat \<Rightarrow> nat) \<Rightarrow> int \<Rightarrow> int \<Rightarrow> world \<Rightarrow> (py_error + nat list) \<times> world" where
  "random_sample src n k w =
     (if 0 \<le> k \<and> k \<le> max 0 n
      then (Inr (draw_sample src (rng_pos w) [0..<nat n] (nat k)),
            w\<lparr>rng_pos := rng_pos w + nat k\<rparr>)
      else (Inl ValueError, w))"

text \<open>
  \<open>_assign_classes_to_agents\<close>: the loop over the classes, each appended to the list of
  every agent drawn for it.
\<close>

fun assign_loop ::
  "DetailedSelector \<Rightarrow> string list \<Rightarrow> int \<Rightarrow> int \<Rightarrow> string list list \<Rightarrow> world
     \<Rightarrow> (py_error + string list list) \<times> world" where
  "assign_loop sel [] num_agents avg_agents_per_class agents_assignments w =
     (Inr agents_assignments, w)"
| "assign_loop sel (cls # rest) num_agents avg_agents_per_class agents_assignments w =
     (case (if num_agents < avg_agents_per_class
            then (Inr [0..<nat num_agents], w)
            else random_sample (random_source sel) num_agents avg_agents_per_class w) of
        (Inl e, w') \<Rightarrow> (Inl e, w')
      | (Inr assigned_agents, w') \<Rightarrow>
          assign_loop sel rest num_agents avg_agents_per_class
            (fold (\<lambda>agent asg. asg[agent := asg ! agent @ [cls]])
               assigned_agents agents_assignments) w')"

definition assign_classes_to_agents ::
  "DetailedSelector \<Rightarrow> string list \<Rightarrow> int \<Rightarrow> int \<Rightarrow> world
     \<Rightarrow> (py_error + string list list) \<times> world" where
  "assign_classes_to_agents sel classes num_agents avg_agents_per_class w =
     (case assign_loop sel classes num_agents avg_agents_per_class
             (replicate (nat num_agents) []) w of
        (Inl e, w') \<Rightarrow> (Inl e, w')
      | (Inr agents_assignments, w') \<Rightarrow>
          (Inr (if agents_assignments = [] then [classes] else agents_assignments), w'))"

text \<open>
  The loop \<open>for agent_id, agent_classes in enumerate(agents_assignments, start=1)\<close> of
  \<open>select_edm\<close>. Its state is the list of agent results, the \<open>defaultdict(int)\<close> of
  votes and the counter of failed agents. The counter is raised only in the
  \<open>except Exception\<close> branch around the retry wrapper, which raises nothing, so it
  is carried along unchanged.
\<close>

fun collect_votes ::
  "DetailedSelector \<Rightarrow> string \<Rightarrow> string \<Rightarrow> string \<Rightarrow> (int \<times> string list) list
     \<Rightarrow> AgentResultDetail list \<times> (string \<Rightarrow> int) \<times> int \<Rightarrow> world
     \<Rightarrow> (AgentResultDetail list \<times> (string \<Rightarrow> int) \<times> int) \<times> world" where
  "collect_votes sel table_name table_in_markdown column [] acc w = (acc, w)"
| "collect_votes sel table_name table_in_markdown column ((aid, agent_classes) # rest)
     (agent_results, votes_per_class, failed_agents) w =
     (if agent_classes = [] then
        collect_votes sel table_name table_in_markdown column rest
          (agent_results @
             [\<lparr>agent_id = aid, assigned_classes = agent_classes,
               agent_llm_request = None, agent_llm_response = None,
               voted_classes = [], agent_status = ''success'', agent_error = None\<rparr>],
           votes_per_class, failed_agents) w
      else
        let data = \<lparr>d_table_name = table_name,
                    d_table_in_markdown = table_in_markdown,
                    d_column_name = column,
                    d_current_level_ontology_classes = join '', '' agent_classes\<rparr> in
        case call_llm_with_retry sel data w of
          ((request, response), w') \<Rightarrow>
            if answer response \<noteq> [] \<and> answer response \<noteq> ''-'' then
              let chosen = parse_class_list (answer response);
                  valid_votes = [c \<leftarrow> chosen. c \<in> set agent_classes] in
              collect_votes sel table_name table_in_markdown column rest
                (agent_results @
                   [\<lparr>agent_id = aid, assigned_classes = agent_classes,
                     agent_llm_request = Some request,
                     agent_llm_response = Some response,
                     voted_classes = valid_votes, agent_status = ''success'',
                     agent_error = None\<rparr>],
                 fold (\<lambda>cls votes. votes(cls := votes cls + 1)) valid_votes votes_per_class,
                 failed_agents) w'
            else
              collect_votes sel table_name table_in_markdown column rest
                (agent_results @
                   [\<lparr>agent_id = aid, assigned_classes = agent_classes,
                     agent_llm_request = Some request,
                     agent_llm_response = Some response,
                     voted_classes = [], agent_status = ''success'',
                     agent_error = None\<rparr>],
                 votes_per_class, failed_agents) w')"

text \<open>
  The loop \<open>for class_ in candidates\<close> that builds the vote summaries: one entry for
  each candidate seen by at least one agent. \<open>votes / seen_by\<close> is Python's true
  division of two integers, a float.
\<close>

definition agents_that_saw_class :: "string list list \<Rightarrow> string \<Rightarrow> int" where
  "agents_that_saw_class agents_assignments cls =
     int (length [agent_classes \<leftarrow> agents_assignments. cls \<in> set agent_classes])"

fun build_vote_summaries ::
  "string list \<Rightarrow> string list list \<Rightarrow> (string \<Rightarrow> int) \<Rightarrow> pyfloat
     \<Rightarrow> VoteSummaryDetail list" where
  "build_vote_summaries [] agents_assignments votes_per_class threshold = []"
| "build_vote_summaries (cls # rest) agents_assignments votes_per_class threshold =
     (let seen_by = agents_that_saw_class agents_assignments cls in
      if seen_by > 0 then
        let votes = votes_per_class cls;
            pct = true_div votes seen_by;
            is_selected = (float_ge pct threshold \<and> votes > 0) in
        \<lparr>class_name = cls, vote_count = votes, vs_total_agents = seen_by,
         percentage = pct, vs_selected = is_selected\<rparr>
          # build_vote_summaries rest agents_assignments votes_per_class threshold
      else build_vote_summaries rest agents_assignments votes_per_class threshold)"

text \<open>
  \<open>select_edm\<close>. Integer \<open>//\<close> is floor division, as \<open>div\<close> on \<open>int\<close>, and raises
  \<open>ZeroDivisionError\<close> on a zero divisor. \<open>list.sort(key, reverse=True)\<close> is stable,
  as is \<open>sort_key\<close> on the negated key. \<open>failed_agents > len(...) * 0.5\<close> is compared
  after doubling both sides.
\<close>

definition num_agents_for :: "EDMOptions \<Rightarrow> string list \<Rightarrow> int" where
  "num_agents_for opts candidates =
     max (agents_per_class opts)
       ((int (length candidates) * agents_per_class opts) div classes_per_agent opts + 1)"

text \<open>\<open>enumerate(xs, start=1)\<close>.\<close>

definition enumerate_from_one :: "'a list \<Rightarrow> (int \<times> 'a) list" where
  "enumerate_from_one xs = zip (map int [1..<Suc (length xs)]) xs"

text \<open>The part of \<open>select_edm\<close> after the agents have answered.\<close>

definition edm_selection ::
  "pyfloat \<Rightarrow> string list \<Rightarrow> string list list \<Rightarrow> AgentResultDetail list
     \<Rightarrow> (string \<Rightarrow> int) \<Rightarrow> int \<Rightarrow> SelectionResult" where
  "edm_selection threshold candidates agents_assignments agent_results votes_per_class
     failed_agents =
     (let summaries = build_vote_summaries candidates agents_assignments
                        votes_per_class threshold;
          selected_classes = map class_name (filter vs_selected summaries);
          edm = \<lparr>edm_consensus_threshold = threshold,
                 total_agents = int (length agents_assignments),
                 votes_summary = sort_key (\<lambda>x. - vote_count x) summaries,
                 agents = agent_results\<rparr>;
          majority_failed = (2 * failed_agents > int (length agents_assignments)) in
      \<lparr>selected = selected_classes,
       status = (if majority_failed then ''failed'' else ''completed''),
       error = (if majority_failed
                then Some (str_int failed_agents @ ''/'' @
                           str_int (int (length agents_assignments)) @
                           '' agents failed'')
                else None),
       llm_request = None, llm_response = None,
       edm_result = Some edm\<rparr>)"

definition select_edm ::
  "DetailedSelector \<Rightarrow> string \<Rightarrow> string \<Rightarrow> string \<Rightarrow> string list \<Rightarrow> world
     \<Rightarrow> (py_error + SelectionResult) \<times> world" where
  "select_edm sel table_name table_in_markdown column candidates w =
     (if candidates = [] then
        (Inr \<lparr>selected = [], status = ''completed'', error = None,
              llm_request = None, llm_response = None, edm_result = None\<rparr>, w)
      else if classes_per_agent (edm_options sel) = 0 then (Inl ZeroDivisionError, w)
      else
        case assign_classes_to_agents sel candidates
               (num_agents_for (edm_options sel) candidates)
               (agents_per_class (edm_options sel)) w of
          (Inl e, w1) \<Rightarrow> (Inl e, w1)
        | (Inr agents_assignments, w1) \<Rightarrow>
            (case collect_votes sel table_name table_in_markdown column
                    (enumerate_from_one agents_assignments) ([], (\<lambda>c. 0), 0) w1 of
               ((agent_results, votes_per_class, failed_agents), w2) \<Rightarrow>
                 (Inr (edm_selection (consensus_threshold (edm_options sel)) candidates
                         agents_assignments agent_results votes_per_class failed_agents),
                  w2)))"

definition select ::
  "DetailedSelector \<Rightarrow> string \<Rightarrow> string \<Rightarrow> string \<Rightarrow> string list \<Rightarrow> world
     \<Rightarrow> (py_error + SelectionResult) \<times> world" where
  "select sel table_name table_in_markdown column candidates w =
     (if mode sel = ''edm''
      then select_edm sel table_name table_in_markdown column candidates w
      else (case select_single sel table_name table_in_markdown column candidates w of
              (result, w') \<Rightarrow> (Inr result, w')))"


section \<open>The concept graph as the executor reads it (saed/core/ontology)\<close>

text \<open>
  Python dictionaries keep insertion order and have unique keys; they are association
  lists read with \<open>map_of\<close> and written with \<open>AList.update\<close>, which replaces the value
  of a present key in place and appends an absent one.
\<close>

record OntologyClass =
  oc_url :: string
  oc_name :: string
  oc_label :: "string option"
  oc_comment :: "string option"

record OntologyDAG =
  dag_nodes :: "(string \<times> OntologyClass) list"
  dag_edges_subclassof :: "(string \<times> string list) list"
  dag_edges :: "(string \<times> string list) list"
  dag_root :: string

definition get_children :: "OntologyDAG \<Rightarrow> string \<Rightarrow> string list" where
  "get_children dag u =
     (case map_of (dag_edges_subclassof dag) u of None \<Rightarrow> [] | Some children \<Rightarrow> children)"


section \<open>The traversal (RunExecutor.execute_column)\<close>

text \<open>
  \<open>RunExecutor\<close> holds the selector it builds in its constructor and the depth bound.
  The progress event sent to the injected sink after each step does not feed back into
  the traversal and is not modelled.

  The state of the \<open>while queue\<close> loop: the FIFO queue, the step log, the terminal
  paths, the memo table \<open>selection_cache\<close> and the world. \<open>select_calls\<close> is
  instrumentation: one entry for each call of \<open>self.selector.select\<close>, holding the
  \<open>parent_url\<close> it was made for and the number of \<open>llm.generate\<close> calls it issued.
\<close>

record RunExecutor =
  selector :: DetailedSelector
  ex_max_depth :: int

record bfs_state =
  st_queue :: "(int \<times> string \<times> string list) list"
  st_steps :: "BFSStepDetail list"
  st_final_paths :: "string list list"
  selection_cache :: "(string \<times> SelectionResult) list"
  select_calls :: "(string \<times> nat) list"
  st_world :: world

text \<open>\<open>if current_path: final_paths.append(current_path)\<close>.\<close>

definition add_terminal :: "string list \<Rightarrow> bfs_state \<Rightarrow> bfs_state" where
  "add_terminal current_path st =
     (if current_path \<noteq> [] then st\<lparr>st_final_paths := st_final_paths st @ [current_path]\<rparr>
      else st)"

text \<open>The candidate names: the names of the children that are nodes of the graph.\<close>

definition candidate_names :: "OntologyDAG \<Rightarrow> string list \<Rightarrow> string list" where
  "candidate_names dag children_urls =
     concat (map (\<lambda>u. case map_of (dag_nodes dag) u of
                         None \<Rightarrow> []
                       | Some node \<Rightarrow> [oc_name node]) children_urls)"

text \<open>
  The search for the URL of a selected name: the first child whose node carries that
  name. \<open>if selected_url:\<close> is also false for the empty string.
\<close>

definition find_selected_url :: "OntologyDAG \<Rightarrow> string list \<Rightarrow> string \<Rightarrow> string option" where
  "find_selected_url dag children_urls selected_name =
     (case find (\<lambda>u. case map_of (dag_nodes dag) u of
                        None \<Rightarrow> False
                      | Some node \<Rightarrow> oc_name node = selected_name) children_urls of
        None \<Rightarrow> None
      | Some u \<Rightarrow> if u = [] then None else Some u)"

definition expand_selected ::
  "OntologyDAG \<Rightarrow> string list \<Rightarrow> int \<Rightarrow> string list \<Rightarrow> string list
     \<Rightarrow> (int \<times> string \<times> string list) list" where
  "expand_selected dag children_urls lvl current_path selected_names =
     concat (map (\<lambda>selected_name.
                    case find_selected_url dag children_urls selected_name of
                      None \<Rightarrow> []
                    | Some selected_url \<Rightarrow>
                        [(lvl + 1, selected_url, current_path @ [selected_name])])
                 selected_names)"

text \<open>
  \<open>Make selection (with caching)\<close>: a memoized result is reused as it is; otherwise the
  selector is called, its result stored under \<open>parent_url\<close>, and the call logged.
\<close>

definition cached_select ::
  "RunExecutor \<Rightarrow> string \<Rightarrow> string \<Rightarrow> string \<Rightarrow> string \<Rightarrow> string list \<Rightarrow> bfs_state
     \<Rightarrow> py_error + SelectionResult \<times> bfs_state" where
  "cached_select ex table_name table_markdown column parent_url candidates st =
     (case map_of (selection_cache st) parent_url of
        Some result \<Rightarrow> Inr (result, st)
      | None \<Rightarrow>
          (case select (selector ex) table_name table_markdown column candidates
                  (st_world st) of
             (Inl e, w') \<Rightarrow> Inl e
           | (Inr result, w') \<Rightarrow>
               Inr (result,
                    st\<lparr>selection_cache :=
                         AList.update parent_url result (selection_cache st),
                       select_calls := select_calls st @
                         [(parent_url,
                           length (llm_calls w') - length (llm_calls (st_world st)))],
                       st_world := w'\<rparr>)))"

text \<open>The step record built from a selection result.\<close>

definition step_of :: "OntologyDAG \<Rightarrow> int \<Rightarrow> string \<Rightarrow> SelectionResult \<Rightarrow> BFSStepDetail" where
  "step_of dag lvl parent_url result =
     \<lparr>step_level = lvl,
      step_parent = (case map_of (dag_nodes dag) parent_url of
                       None \<Rightarrow> parent_url
                     | Some parent_node \<Rightarrow> oc_name parent_node),
      step_candidates = candidate_names dag (get_children dag parent_url),
      step_selected = selected result,
      step_status = status result,
      step_error = error result,
      step_llm_request = llm_request result,
      step_llm_response = llm_response result,
      step_edm_result = edm_result result\<rparr>"

text \<open>The body of the loop for one dequeued item; \<open>st\<close> already has the item removed.\<close>

definition process_item ::
  "RunExecutor \<Rightarrow> OntologyDAG \<Rightarrow> string \<Rightarrow> string \<Rightarrow> string
     \<Rightarrow> int \<times> string \<times> string list \<Rightarrow> bfs_state \<Rightarrow> py_error + bfs_state" where
  "process_item ex dag table_name table_markdown column item st =
     (case item of (lvl, parent_url, current_path) \<Rightarrow>
        let children_urls = get_children dag parent_url in
        if children_urls = [] \<or> lvl \<ge> ex_max_depth ex then Inr (add_terminal current_path st)
        else
          let candidates = candidate_names dag children_urls in
          if candidates = [] then Inr (add_terminal current_path st)
          else
            (case cached_select ex table_name table_markdown column parent_url candidates st of
               Inl e \<Rightarrow> Inl e
             | Inr (result, st1) \<Rightarrow>
                 let st2 = st1\<lparr>st_steps := st_steps st1 @ [step_of dag lvl parent_url result]\<rparr> in
                 if status result = ''failed'' then
                   Inr (st2\<lparr>st_final_paths :=
                              st_final_paths st2 @ [current_path @ [''[terminated]'']]\<rparr>)
                 else if selected result = [] then Inr (add_terminal current_path st2)
                 else
                   Inr (st2\<lparr>st_queue := st_queue st2 @
                              expand_selected dag children_urls lvl current_path
                                (selected result)\<rparr>)))"

text \<open>
  The \<open>while queue\<close> loop. Every item put on the queue lies one level deeper than the
  item it came from, and an item at or beyond \<open>max_depth\<close> puts nothing on it, so the
  loop ends whatever the selector answers.
\<close>

function bfs_loop ::
  "RunExecutor \<Rightarrow> OntologyDAG \<Rightarrow> string \<Rightarrow> string \<Rightarrow> string \<Rightarrow> bfs_state
     \<Rightarrow> py_error + bfs_state" where
  "bfs_loop ex dag table_name table_markdown column st =
     (case st_queue st of
        [] \<Rightarrow> Inr st
      | item # rest \<Rightarrow>
          (case process_item ex dag table_name table_markdown column item
                  (st\<lparr>st_queue := rest\<rparr>) of
             Inl e \<Rightarrow> Inl e
           | Inr st' \<Rightarrow> bfs_loop ex dag table_name table_markdown column st'))"
  by pat_completeness auto
termination
proof (relation "inv_image (mult {(a, b). a < b})
         (\<lambda>(ex, dag, tn, tm, col, st).
            mset (map (\<lambda>(l, u, p). nat (ex_max_depth ex - l)) (st_queue st)))")
  show "wf (inv_image (mult {(a::nat, b). a < b})
         (\<lambda>(ex, dag, tn, tm, col, st).
            mset (map (\<lambda>(l, u, p). nat (ex_max_depth ex - l)) (st_queue st))))"
    by (intro wf_inv_image wf_mult wf_less)
next
  fix ex dag tn tm col st item rest st'
  assume q: "st_queue st = item # rest"
    and p: "process_item ex dag tn tm col item (st\<lparr>st_queue := rest\<rparr>) = Inr st'"
  obtain lvl pu cp where item: "item = (lvl, pu, cp)" by (cases item)
  have cached: "st_queue st1 = rest"
    if "cached_select ex tn tm col pu cands (st\<lparr>st_queue := rest\<rparr>) = Inr (r, st1)"
    for cands r st1
    using that
    by (auto simp: cached_select_def split: option.splits prod.splits sum.splits)
  have levels: "l = lvl + 1"
    if "(l, u, pa) \<in> set (expand_selected dag cu lvl cp names)" for l u pa cu names
    using that by (auto simp: expand_selected_def split: option.splits)
  have "\<exists>new. st_queue st' = rest @ new \<and>
          (\<forall>(l, u, pa) \<in> set new. l = lvl + 1 \<and> lvl < ex_max_depth ex)"
    using p unfolding item
    apply (simp add: process_item_def Let_def add_terminal_def
                split: if_splits sum.splits prod.splits)
    apply (auto dest!: cached dest: levels)
    done
  then obtain new where new: "st_queue st' = rest @ new"
    and lv: "\<forall>(l, u, p) \<in> set new. l = lvl + 1 \<and> lvl < ex_max_depth ex"
    by auto
  let ?f = "\<lambda>(l, u, p). nat (ex_max_depth ex - l)"
  have "(mset (map ?f rest) + mset (map ?f new), mset (map ?f rest) + {#?f item#})
          \<in> mult {(a, b). a < b}"
  proof (rule one_step_implies_mult)
    show "{#?f item#} \<noteq> {#}" by simp
    show "\<forall>k \<in> set_mset (mset (map ?f new)). \<exists>j \<in> set_mset {#?f item#}. (k, j) \<in> {(a, b). a < b}"
      using lv by (auto simp: item)
  qed
  then show "((ex, dag, tn, tm, col, st'), (ex, dag, tn, tm, col, st))
       \<in> inv_image (mult {(a, b). a < b})
           (\<lambda>(ex, dag, tn, tm, col, st).
              mset (map (\<lambda>(l, u, p). nat (ex_max_depth ex - l)) (st_queue st)))"
    by (simp add: q new add.commute)
qed

declare bfs_loop.simps [simp del]

definition run_bfs ::
  "RunExecutor \<Rightarrow> OntologyDAG \<Rightarrow> string \<Rightarrow> string \<Rightarrow> string \<Rightarrow> world
     \<Rightarrow> py_error + bfs_state" where
  "run_bfs ex dag table_name table_markdown column w =
     bfs_loop ex dag table_name table_markdown column
       \<lparr>st_queue = [(0, dag_root dag, [])], st_steps = [], st_final_paths = [],
        selection_cache = [], select_calls = [], st_world = w\<rparr>"

text \<open>What follows the loop: the single empty path and the overall status.\<close>

definition column_result :: "string \<Rightarrow> bfs_state \<Rightarrow> ColumnResultDetail" where
  "column_result column st =
     (let paths = (if st_final_paths st = [] then [[]] else st_final_paths st);
          all_failed = list_all (\<lambda>step. step_status step = ''failed'') (st_steps st);
          any_failed = list_ex (\<lambda>step. step_status step = ''failed'') (st_steps st) in
      \<lparr>column_name = column,
       col_status = (if all_failed then ''failed''
                     else if any_failed then ''partial'' else ''completed''),
       steps = st_steps st,
       final_paths = paths,
       col_error = (if all_failed then Some ''All steps failed'' else None)\<rparr>)"

definition execute_column ::
  "RunExecutor \<Rightarrow> string \<Rightarrow> string \<Rightarrow> string \<Rightarrow> OntologyDAG \<Rightarrow> world
     \<Rightarrow> py_error + ColumnResultDetail \<times> world" where
  "execute_column ex table_name table_markdown column dag w =
     (case run_bfs ex dag table_name table_markdown column w of
        Inl e \<Rightarrow> Inl e
      | Inr st \<Rightarrow> Inr (column_result column st, st_world st))"


section \<open>Graph construction (OntologyDAG.build_dag)\<close>











section \<open>The depth cache (saed/core/ontology/cache.py)\<close>

text \<open>
  The metadata dictionary holds values of several Python types. The entry
  \<open>cached_at\<close> is the wall-clock time of the build and is left out.
\<close>

datatype meta_value = MStr string | MInt int | MBool bool | MNone

record CachedNode =
  cn_url :: string
  cn_name :: string
  cn_label :: "string option"
  cn_comment :: "string option"
  cn_children :: "string list"
  cn_depth :: int
  cn_has_more :: bool

record CachedTree =
  ct_root :: string
  ct_nodes :: "(string \<times> CachedNode) list"
  ct_metadata :: "(string \<times> meta_value) list"

text \<open>
  The breadth-first walk of \<open>build_from_dag\<close> that fills \<open>depths\<close>. A URL is put on
  the queue only as a child of some node and is visited at most once, so the walk ends.
\<close>

function depth_walk ::
  "OntologyDAG \<Rightarrow> (string \<times> int) list \<times> string set \<times> (string \<rightharpoonup> int)
     \<Rightarrow> (string \<rightharpoonup> int)" where
  "depth_walk dag (queue, visited, depths) =
     (case queue of
        [] \<Rightarrow> depths
      | (u, d) # rest \<Rightarrow>
          if u \<in> visited then depth_walk dag (rest, visited, depths)
          else depth_walk dag
                 (rest @ map (\<lambda>child_url. (child_url, d + 1))
                           [child_url \<leftarrow> get_children dag u. child_url \<notin> insert u visited],
                  insert u visited,
                  depths(u \<mapsto> d)))"
  by pat_completeness auto
termination
proof (relation "measures
         [\<lambda>(dag, queue, visited, depths).
            card ((set (concat (map snd (dag_edges_subclassof dag))) \<union> fst ` set queue)
                    - visited),
          \<lambda>(dag, queue, visited, depths). length queue]")
  show "wf (measures
         [\<lambda>(dag, queue, visited, depths).
            card ((set (concat (map snd (dag_edges_subclassof dag))) \<union> fst ` set queue)
                    - visited),
          \<lambda>(dag, queue, visited, depths :: string \<rightharpoonup> int). length queue])"
    by simp
next
  fix dag :: OntologyDAG and queue :: "(string \<times> int) list" and visited :: "string set"
    and depths :: "string \<rightharpoonup> int" and x rest u d
  assume "queue = x # rest" "(u, d) = x" "u \<in> visited"
  then have "(set (concat (map snd (dag_edges_subclassof dag))) \<union> fst ` set rest) - visited
           = (set (concat (map snd (dag_edges_subclassof dag))) \<union> fst ` set queue) - visited"
    by auto
  then show "((dag, rest, visited, depths), (dag, queue, visited, depths)) \<in> measures
         [\<lambda>(dag, queue, visited, depths).
            card ((set (concat (map snd (dag_edges_subclassof dag))) \<union> fst ` set queue)
                    - visited),
          \<lambda>(dag, queue, visited, depths). length queue]"
    using \<open>queue = x # rest\<close> by simp
next
  fix dag :: OntologyDAG and queue :: "(string \<times> int) list" and visited :: "string set"
    and depths :: "string \<rightharpoonup> int" and x rest u d
  assume q: "queue = x # rest" "(u, d) = x" and nv: "u \<notin> visited"
  let ?U = "set (concat (map snd (dag_edges_subclassof dag)))"
  let ?new = "map (\<lambda>child_url. (child_url, d + 1))
                [child_url \<leftarrow> get_children dag u. child_url \<notin> insert u visited]"
  have ch: "set (get_children dag u) \<subseteq> ?U"
  proof
    fix c assume "c \<in> set (get_children dag u)"
    then obtain cs where "map_of (dag_edges_subclassof dag) u = Some cs" "c \<in> set cs"
      by (cases "map_of (dag_edges_subclassof dag) u") (auto simp: get_children_def)
    then have "(u, cs) \<in> set (dag_edges_subclassof dag)" "c \<in> set cs"
      by (auto dest: map_of_SomeD)
    then show "c \<in> ?U" by force
  qed
  have "(?U \<union> fst ` set (rest @ ?new)) - insert u visited
          \<subset> (?U \<union> fst ` set queue) - visited"
    using q nv ch by (auto simp: image_iff)
  then have "card ((?U \<union> fst ` set (rest @ ?new)) - insert u visited)
           < card ((?U \<union> fst ` set queue) - visited)"
    by (intro psubset_card_mono) auto
  then show "((dag, rest @ ?new, insert u visited, depths(u \<mapsto> d)),
              (dag, queue, visited, depths)) \<in> measures
         [\<lambda>(dag, queue, visited, depths).
            card ((set (concat (map snd (dag_edges_subclassof dag))) \<union> fst ` set queue)
                    - visited),
          \<lambda>(dag, queue, visited, depths). length queue]"
    by simp
qed

declare depth_walk.simps [simp del]

definition compute_depths :: "OntologyDAG \<Rightarrow> (string \<rightharpoonup> int)" where
  "compute_depths dag = depth_walk dag ([(dag_root dag, 0)], {}, Map.empty)"

definition cached_node_of :: "OntologyDAG \<Rightarrow> (string \<rightharpoonup> int) \<Rightarrow> string \<Rightarrow> OntologyClass \<Rightarrow> CachedNode" where
  "cached_node_of dag depths u ontology_class =
     \<lparr>cn_url = u, cn_name = oc_name ontology_class,
      cn_label = oc_label ontology_class, cn_comment = oc_comment ontology_class,
      cn_children = get_children dag u,
      cn_depth = (case depths u of None \<Rightarrow> 0 | Some d \<Rightarrow> d),
      cn_has_more = False\<rparr>"

definition build_from_dag :: "OntologyDAG \<Rightarrow> string \<Rightarrow> CachedTree" where
  "build_from_dag dag source_hash =
     (let depths = compute_depths dag;
          nodes = map (\<lambda>(u, ontology_class). (u, cached_node_of dag depths u ontology_class))
                    (dag_nodes dag);
          deepest = fold (\<lambda>(u, node) m. max m (cn_depth node)) nodes 0 in
      \<lparr>ct_root = dag_root dag,
       ct_nodes = nodes,
       ct_metadata = [(''source_hash'', MStr source_hash),
                      (''total_nodes'', MInt (int (length nodes))),
                      (''max_depth'', MInt deepest)]\<rparr>)"


text \<open>
  The breadth-first walk of \<open>get_subtree\<close>. A URL is marked visited before its node is
  looked up, so a URL without a node is skipped once and for all.
\<close>

definition children_truncated :: "CachedTree \<Rightarrow> int option \<Rightarrow> int \<Rightarrow> CachedNode \<Rightarrow> bool" where
  "children_truncated t max_depth relative_depth node =
     (case max_depth of
        None \<Rightarrow> False
      | Some m \<Rightarrow>
          list_ex (\<lambda>child_url.
                     case map_of (ct_nodes t) child_url of
                       None \<Rightarrow> False
                     | Some child \<Rightarrow> cn_children child \<noteq> [] \<and> relative_depth + 1 \<ge> m)
                  (cn_children node))"

definition at_depth_limit :: "int option \<Rightarrow> int \<Rightarrow> bool" where
  "at_depth_limit max_depth relative_depth =
     (case max_depth of None \<Rightarrow> False | Some m \<Rightarrow> relative_depth \<ge> m)"

definition node_at_limit :: "CachedNode \<Rightarrow> CachedNode" where
  "node_at_limit node =
     \<lparr>cn_url = cn_url node, cn_name = cn_name node,
      cn_label = cn_label node, cn_comment = cn_comment node,
      cn_children = [], cn_depth = cn_depth node,
      cn_has_more = (cn_children node \<noteq> [])\<rparr>"

definition node_below_limit :: "CachedTree \<Rightarrow> int option \<Rightarrow> int \<Rightarrow> CachedNode \<Rightarrow> CachedNode" where
  "node_below_limit t max_depth relative_depth node =
     \<lparr>cn_url = cn_url node, cn_name = cn_name node,
      cn_label = cn_label node, cn_comment = cn_comment node,
      cn_children = cn_children node, cn_depth = cn_depth node,
      cn_has_more = children_truncated t max_depth relative_depth node\<rparr>"

function subtree_walk ::
  "CachedTree \<Rightarrow> int option
     \<Rightarrow> (string \<times> int) list \<times> string set \<times> (string \<times> CachedNode) list
     \<Rightarrow> (string \<times> CachedNode) list" where
  "subtree_walk t max_depth (queue, visited, result_nodes) =
     (case queue of
        [] \<Rightarrow> result_nodes
      | (u, relative_depth) # rest \<Rightarrow>
          if u \<in> visited then subtree_walk t max_depth (rest, visited, result_nodes)
          else
            (case map_of (ct_nodes t) u of
               None \<Rightarrow> subtree_walk t max_depth (rest, insert u visited, result_nodes)
             | Some node \<Rightarrow>
                 if at_depth_limit max_depth relative_depth then
                   subtree_walk t max_depth
                     (rest, insert u visited,
                      AList.update u (node_at_limit node) result_nodes)
                 else
                   subtree_walk t max_depth
                     (rest @ map (\<lambda>child_url. (child_url, relative_depth + 1))
                               [child_url \<leftarrow> cn_children node. child_url \<notin> insert u visited],
                      insert u visited,
                      AList.update u (node_below_limit t max_depth relative_depth node)
                        result_nodes)))"
  by pat_completeness auto
termination
proof -
  let ?m = "\<lambda>(t, max_depth :: int option, queue :: (string \<times> int) list, visited,
              result_nodes :: (string \<times> CachedNode) list).
              card ((set (concat (map (cn_children \<circ> snd) (ct_nodes t))) \<union> fst ` set queue)
                      - visited)"
  let ?l = "\<lambda>(t :: CachedTree, max_depth :: int option, queue :: (string \<times> int) list,
              visited :: string set, result_nodes :: (string \<times> CachedNode) list).
              length queue"
  have key: "card ((U \<union> fst ` set (rest @ new)) - insert u visited)
               < card ((U \<union> fst ` set ((u, d) # rest)) - visited)"
    if "finite U" "fst ` set new \<subseteq> U" "u \<notin> visited"
    for U :: "string set" and rest new :: "(string \<times> int) list" and u d visited
  proof (rule psubset_card_mono)
    show "finite ((U \<union> fst ` set ((u, d) # rest)) - visited)" using that(1) by simp
    have "(U \<union> fst ` set (rest @ new)) - insert u visited
            \<subseteq> ((U \<union> fst ` set ((u, d) # rest)) - visited) - {u}"
      using that(2) by auto
    moreover have "u \<in> (U \<union> fst ` set ((u, d) # rest)) - visited"
      using that(3) by simp
    ultimately show "(U \<union> fst ` set (rest @ new)) - insert u visited
            \<subset> (U \<union> fst ` set ((u, d) # rest)) - visited"
      by blast
  qed
  show ?thesis
  proof (relation "measures [?m, ?l]")
    show "wf (measures [?m, ?l])" by simp
  next
    fix t :: CachedTree and max_depth :: "int option" and queue :: "(string \<times> int) list"
      and visited :: "string set" and result_nodes :: "(string \<times> CachedNode) list"
      and x rest u relative_depth
    assume a: "queue = x # rest" "(u, relative_depth) = x" "u \<in> visited"
    let ?U = "set (concat (map (cn_children \<circ> snd) (ct_nodes t)))"
    have "(?U \<union> fst ` set rest) - visited = (?U \<union> fst ` set queue) - visited"
      using a by auto
    then show "((t, max_depth, rest, visited, result_nodes),
                (t, max_depth, queue, visited, result_nodes)) \<in> measures [?m, ?l]"
      using a(1) by simp
  next
    fix t :: CachedTree and max_depth :: "int option" and queue :: "(string \<times> int) list"
      and visited :: "string set" and result_nodes :: "(string \<times> CachedNode) list"
      and x rest u relative_depth
    assume a: "queue = x # rest" "(u, relative_depth) = x" "u \<notin> visited"
    from key [of "set (concat (map (cn_children \<circ> snd) (ct_nodes t)))" "[]" u visited rest
                 relative_depth]
    show "((t, max_depth, rest, insert u visited, result_nodes),
           (t, max_depth, queue, visited, result_nodes)) \<in> measures [?m, ?l]"
      using a by simp
  next
    fix t :: CachedTree and max_depth :: "int option" and queue :: "(string \<times> int) list"
      and visited :: "string set" and result_nodes :: "(string \<times> CachedNode) list"
      and x rest u relative_depth and node :: CachedNode
    assume a: "queue = x # rest" "(u, relative_depth) = x" "u \<notin> visited"
    from key [of "set (concat (map (cn_children \<circ> snd) (ct_nodes t)))" "[]" u visited rest
                 relative_depth]
    show "((t, max_depth, rest, insert u visited,
            AList.update u (node_at_limit node) result_nodes),
           (t, max_depth, queue, visited, result_nodes)) \<in> measures [?m, ?l]"
      using a by simp
  next
    fix t :: CachedTree and max_depth :: "int option" and queue :: "(string \<times> int) list"
      and visited :: "string set" and result_nodes :: "(string \<times> CachedNode) list"
      and x rest u relative_depth and node :: CachedNode
    assume a: "queue = x # rest" "(u, relative_depth) = x" "u \<notin> visited"
      and node: "map_of (ct_nodes t) u = Some node"
    let ?U = "set (concat (map (cn_children \<circ> snd) (ct_nodes t)))"
    let ?new = "map (\<lambda>child_url. (child_url, relative_depth + 1))
                  [child_url \<leftarrow> cn_children node. child_url \<notin> insert u visited]"
    have "(u, node) \<in> set (ct_nodes t)" using node by (rule map_of_SomeD)
    then have "set (cn_children node) \<subseteq> ?U" by force
    then have "fst ` set ?new \<subseteq> ?U" by auto
    from key [OF _ this a(3), of rest relative_depth]
    show "((t, max_depth, rest @ ?new, insert u visited,
            AList.update u (node_below_limit t max_depth relative_depth node) result_nodes),
           (t, max_depth, queue, visited, result_nodes)) \<in> measures [?m, ?l]"
      using a by simp
  qed
qed

declare subtree_walk.simps [simp del]

text \<open>
  \<open>get_subtree\<close>. \<open>root_url or self.root\<close> takes the tree's root for \<open>None\<close> and for the
  empty string.
\<close>

definition start_url_of :: "CachedTree \<Rightarrow> string option \<Rightarrow> string" where
  "start_url_of t root_url =
     (let start_url = (case root_url of
                         None \<Rightarrow> ct_root t
                       | Some r \<Rightarrow> if r = [] then ct_root t else r) in
      if map_of (ct_nodes t) start_url = None \<and> start_url \<noteq> ct_root t
      then ct_root t else start_url)"

definition get_subtree :: "CachedTree \<Rightarrow> string option \<Rightarrow> int option \<Rightarrow> CachedTree" where
  "get_subtree t root_url max_depth =
     (let start_url = start_url_of t root_url;
          result_nodes = subtree_walk t max_depth ([(start_url, 0)], {}, []) in
      \<lparr>ct_root = start_url,
       ct_nodes = result_nodes,
       ct_metadata =
         AList.update ''max_depth'' (case max_depth of None \<Rightarrow> MNone | Some m \<Rightarrow> MInt m)
           (AList.update ''subtree_root'' (MStr start_url)
              (AList.update ''truncated''
                 (MBool (max_depth \<noteq> None \<and> length result_nodes < length (ct_nodes t)))
                 (ct_metadata t)))\<rparr>)"


section \<open>Concrete runs\<close>

text \<open>
  The constructors with their default arguments: three retries, chain-of-thought
  prompts, depth bound 3, and the default ensemble options.
\<close>

definition world0 :: world where
  "world0 = \<lparr>llm_calls = [], sleeps = [], rng_pos = 0\<rparr>"

definition default_edm_options :: EDMOptions where
  "default_edm_options =
     \<lparr>classes_per_agent = 30, agents_per_class = 3,
      consensus_threshold = Finite (to_double (8 / 10))\<rparr>"

definition DetailedSelector_init :: "string \<Rightarrow> llm \<Rightarrow> DetailedSelector" where
  "DetailedSelector_init m l =
     \<lparr>mode = m, prompt_type = ''cot'', edm_options = default_edm_options,
      max_retries = 3, model_name = ''model'', llm_generate = l,
      random_source = (\<lambda>i. 0)\<rparr>"

definition RunExecutor_init :: "string \<Rightarrow> llm \<Rightarrow> RunExecutor" where
  "RunExecutor_init m l = \<lparr>selector = DetailedSelector_init m l, ex_max_depth = 3\<rparr>"

definition plain_node :: "string \<Rightarrow> string \<times> OntologyClass" where
  "plain_node u = (u, \<lparr>oc_url = u, oc_name = u, oc_label = None, oc_comment = None\<rparr>)"

text \<open>The graph with root \<open>R\<close>, children \<open>A\<close> and \<open>B\<close> of \<open>R\<close>, and the child \<open>C\<close> of \<open>B\<close>.\<close>

definition scenario_dag :: OntologyDAG where
  "scenario_dag =
     \<lparr>dag_nodes = [plain_node ''R'', plain_node ''A'', plain_node ''B'', plain_node ''C''],
      dag_edges_subclassof = [(''R'', [''A'', ''B'']), (''B'', [''C''])],
      dag_edges = [(''R'', []), (''A'', [''R'']), (''B'', [''R'']), (''C'', [''B''])],
      dag_root = ''R''\<rparr>"

text \<open>
  Two oracles: one answers \<open>A\<close> when asked about \<open>A, B\<close> and \<open>C\<close> otherwise, the other
  answers \<open>A, B\<close> when asked about \<open>A, B\<close> and \<open>C\<close> otherwise.
\<close>

definition llm_selects_A :: llm where
  "llm_selects_A history data =
     (if d_current_level_ontology_classes data = ''A, B''
      then Inr ''<answer>A</answer>'' else Inr ''<answer>C</answer>'')"

definition llm_selects_A_and_B :: llm where
  "llm_selects_A_and_B history data =
     (if d_current_level_ontology_classes data = ''A, B''
      then Inr ''<answer>A, B</answer>'' else Inr ''<answer>C</answer>'')"

definition paths_and_status ::
  "py_error + ColumnResultDetail \<times> world \<Rightarrow> (string list list \<times> string) option" where
  "paths_and_status r =
     (case r of
        Inl e \<Rightarrow> None
      | Inr (res, w) \<Rightarrow> Some (final_paths res, col_status res))"


text \<open>An executor with depth bound 0, an oracle that selects nothing, one that always raises.\<close>

definition executor_depth0 :: RunExecutor where
  "executor_depth0 =
     \<lparr>selector = DetailedSelector_init ''single'' llm_selects_A, ex_max_depth = 0\<rparr>"

text \<open>A step record with a given status, and a loop state that has recorded given steps.\<close>

definition step_with_status :: "string \<Rightarrow> BFSStepDetail" where
  "step_with_status s =
     \<lparr>step_level = 0, step_parent = ''R'', step_candidates = [''A''], step_selected = [],
      step_status = s, step_error = None, step_llm_request = None,
      step_llm_response = None, step_edm_result = None\<rparr>"

definition state_with_steps :: "BFSStepDetail list \<Rightarrow> bfs_state" where
  "state_with_steps xs =
     \<lparr>st_queue = [], st_steps = xs, st_final_paths = [], selection_cache = [],
      select_calls = [], st_world = world0\<rparr>"

definition llm_selects_nothing :: llm where
  "llm_selects_nothing history data = Inr ''<answer>-</answer>''"

definition llm_always_fails :: llm where
  "llm_always_fails history data = Inl ''timeout''"

definition scenario_data :: llm_data where
  "scenario_data =
     \<lparr>d_table_name = ''table'', d_table_in_markdown = ''| a |'', d_column_name = ''col'',
      d_current_level_ontology_classes = ''A, B''\<rparr>"




text \<open>
  Ensemble runs on the single candidate \<open>A\<close>, which the default options give to each of
  three agents: an oracle whose first answer names \<open>A\<close> twice, whose second names it once
  and whose later answers select nothing, an oracle whose first answer names \<open>A\<close> four
  times and whose later answers select nothing, and an oracle that always answers \<open>A\<close>.
\<close>

definition llm_repeating_voter :: llm where
  "llm_repeating_voter history data =
     (if length history = 0 then Inr ''<answer>A, A</answer>''
      else if length history = 1 then Inr ''<answer>A</answer>''
      else Inr ''<answer>-</answer>'')"

definition llm_four_mentions :: llm where
  "llm_four_mentions history data =
     (if length history = 0 then Inr ''<answer>A, A, A, A</answer>''
      else Inr ''<answer>-</answer>'')"

definition llm_votes_A :: llm where
  "llm_votes_A history data = Inr ''<answer>A</answer>''"

definition ten_candidates :: "string list" where
  "ten_candidates =
     [''c0'', ''c1'', ''c2'', ''c3'', ''c4'', ''c5'', ''c6'', ''c7'', ''c8'', ''c9'']"

text \<open>The selector of the ensemble strategy with given options.\<close>

definition selector_with_options :: "EDMOptions \<Rightarrow> llm \<Rightarrow> DetailedSelector" where
  "selector_with_options opts l = (DetailedSelector_init ''edm'' l)\<lparr>edm_options := opts\<rparr>"

definition edm_outcome ::
  "(py_error + SelectionResult) \<times> world
     \<Rightarrow> (string list \<times> string list list \<times> string list list) option" where
  "edm_outcome r =
     (case fst r of
        Inl e \<Rightarrow> None
      | Inr res \<Rightarrow>
          (case edm_result res of
             None \<Rightarrow> None
           | Some er \<Rightarrow> Some (selected res, map assigned_classes (agents er),
                                map voted_classes (agents er))))"


section \<open>The acceptance rule in terms of the agents' results\<close>

text \<open>
  For a candidate: the number of agents it was assigned to, the number of times it is
  named in the valid votes of the agents, and the acceptance test on these two numbers.
\<close>

definition seen_by :: "AgentResultDetail list \<Rightarrow> string \<Rightarrow> int" where
  "seen_by ags c = int (length [a \<leftarrow> ags. c \<in> set (assigned_classes a)])"

definition votes_for :: "AgentResultDetail list \<Rightarrow> string \<Rightarrow> int" where
  "votes_for ags c = sum_list (map (\<lambda>a. int (count_list (voted_classes a) c)) ags)"

definition voters_of :: "AgentResultDetail list \<Rightarrow> string \<Rightarrow> int" where
  "voters_of ags c = int (length [a \<leftarrow> ags. c \<in> set (voted_classes a)])"

definition accepted :: "pyfloat \<Rightarrow> AgentResultDetail list \<Rightarrow> string \<Rightarrow> bool" where
  "accepted threshold ags c \<longleftrightarrow>
     float_ge (true_div (votes_for ags c) (seen_by ags c)) threshold \<and> votes_for ags c > 0"


text \<open>
  For a run of the ensemble and a candidate: the number of agents that saw it, the number
  of agents that named it, its vote count, and whether it was selected.
\<close>

definition parsed_votes :: "AgentResultDetail \<Rightarrow> string list" where
  "parsed_votes a =
     (case agent_llm_response a of
        None \<Rightarrow> []
      | Some response \<Rightarrow>
          if answer response \<noteq> [] \<and> answer response \<noteq> ''-''
          then [c \<leftarrow> parse_class_list (answer response). c \<in> set (assigned_classes a)]
          else [])"

definition edm_counts ::
  "(py_error + SelectionResult) \<times> world \<Rightarrow> string \<Rightarrow> (int \<times> int \<times> int \<times> bool) option" where
  "edm_counts r c =
     (case fst r of
        Inl e \<Rightarrow> None
      | Inr res \<Rightarrow>
          (case edm_result res of
             None \<Rightarrow> None
           | Some er \<Rightarrow> Some (seen_by (agents er) c, voters_of (agents er) c,
                                votes_for (agents er) c, c \<in> set (selected res))))"


text \<open>The summary entry of a candidate: vote count, agents that saw it, percentage, selected.\<close>

definition edm_summary ::
  "(py_error + SelectionResult) \<times> world \<Rightarrow> string \<Rightarrow> (int \<times> int \<times> rat \<times> bool) list" where
  "edm_summary r c =
     (case fst r of
        Inl e \<Rightarrow> []
      | Inr res \<Rightarrow>
          (case edm_result res of
             None \<Rightarrow> []
           | Some er \<Rightarrow>
               map (\<lambda>vs. (vote_count vs, vs_total_agents vs, percentage vs, vs_selected vs))
                 [vs \<leftarrow> votes_summary er. class_name vs = c]))"


section \<open>Inputs and notions for graph construction and the cache\<close>









section \<open>Properties of the traversal\<close>

lemma bfs_loop_invariant:
  assumes "bfs_loop ex dag tn tm col st = Inr st'"
    and "I st"
    and "\<And>s item rest s'. I s \<Longrightarrow> st_queue s = item # rest \<Longrightarrow>
           process_item ex dag tn tm col item (s\<lparr>st_queue := rest\<rparr>) = Inr s' \<Longrightarrow> I s'"
  shows "I st' \<and> st_queue st' = []"
  using assms
proof (induction ex dag tn tm col st rule: bfs_loop.induct)
  case (1 ex dag tn tm col st)
  show ?case
  proof (cases "st_queue st")
    case Nil
    with "1.prems"(1,2) show ?thesis by (simp add: bfs_loop.simps)
  next
    case (Cons item rest)
    with "1.prems"(1) obtain s1 where
      p: "process_item ex dag tn tm col item (st\<lparr>st_queue := rest\<rparr>) = Inr s1"
      and l: "bfs_loop ex dag tn tm col s1 = Inr st'"
      by (subst (asm) bfs_loop.simps) (auto split: sum.splits)
    have "I s1" using "1.prems"(3) [OF "1.prems"(2) Cons p] .
    from "1.IH" [OF Cons p l this "1.prems"(3)] show ?thesis by simp
  qed
qed

lemma cached_select_cases:
  assumes "cached_select ex tn tm col pu cands st = Inr (result, st1)"
  obtains (hit) "map_of (selection_cache st) pu = Some result" "st1 = st"
  | (miss) w' where "map_of (selection_cache st) pu = None"
      "select (selector ex) tn tm col cands (st_world st) = (Inr result, w')"
      "st1 = st\<lparr>selection_cache := AList.update pu result (selection_cache st),
                select_calls := select_calls st @
                  [(pu, length (llm_calls w') - length (llm_calls (st_world st)))],
                st_world := w'\<rparr>"
  using assms
  by (auto simp: cached_select_def split: option.splits prod.splits sum.splits)

lemma process_item_cases:
  assumes "process_item ex dag tn tm col (lvl, pu, cp) st = Inr st'"
  obtains (terminal) "st' = add_terminal cp st"
  | (failed) result st1 where
      "lvl < ex_max_depth ex"
      "cached_select ex tn tm col pu (candidate_names dag (get_children dag pu)) st
         = Inr (result, st1)"
      "status result = ''failed''"
      "st' = st1\<lparr>st_steps := st_steps st1 @ [step_of dag lvl pu result],
                 st_final_paths := st_final_paths st1 @ [cp @ [''[terminated]'']]\<rparr>"
  | (none) result st1 where
      "lvl < ex_max_depth ex"
      "cached_select ex tn tm col pu (candidate_names dag (get_children dag pu)) st
         = Inr (result, st1)"
      "status result \<noteq> ''failed''" "selected result = []"
      "st' = add_terminal cp (st1\<lparr>st_steps := st_steps st1 @ [step_of dag lvl pu result]\<rparr>)"
  | (expand) result st1 where
      "lvl < ex_max_depth ex"
      "cached_select ex tn tm col pu (candidate_names dag (get_children dag pu)) st
         = Inr (result, st1)"
      "status result \<noteq> ''failed''" "selected result \<noteq> []"
      "st' = st1\<lparr>st_steps := st_steps st1 @ [step_of dag lvl pu result],
                 st_queue := st_queue st1 @
                   expand_selected dag (get_children dag pu) lvl cp (selected result)\<rparr>"
  using assms
  unfolding process_item_def step_of_def
  by (simp add: Let_def split: if_splits sum.splits prod.splits)


subsection \<open>The selector never reports failure\<close>

lemma collect_votes_failed:
  "collect_votes sel tn tm col pairs (ar, v, f) w = ((ar', v', f'), w') \<Longrightarrow> f' = f"
proof (induction pairs arbitrary: ar v w)
  case Nil
  then show ?case by simp
next
  case (Cons p pairs)
  obtain aid ac where p: "p = (aid, ac)" by (cases p)
  show ?case
    using Cons.prems unfolding p
    by (auto simp: Let_def split: if_splits prod.splits dest: Cons.IH)
qed

lemma select_single_status:
  "select_single sel tn tm col cands w = (r, w') \<Longrightarrow> status r = ''completed''"
  by (auto simp: select_single_def Let_def split: if_splits prod.splits)

lemma select_edm_cases:
  assumes "select_edm sel tn tm col cands w = (Inr r, w')"
  obtains (empty) "cands = []" "w' = w"
      "r = \<lparr>selected = [], status = ''completed'', error = None,
             llm_request = None, llm_response = None, edm_result = None\<rparr>"
  | (run) asg w1 ar v f where "cands \<noteq> []"
      "classes_per_agent (edm_options sel) \<noteq> 0"
      "assign_classes_to_agents sel cands (num_agents_for (edm_options sel) cands)
         (agents_per_class (edm_options sel)) w = (Inr asg, w1)"
      "collect_votes sel tn tm col (enumerate_from_one asg) ([], (\<lambda>c. 0), 0) w1
         = ((ar, v, f), w')"
      "r = edm_selection (consensus_threshold (edm_options sel)) cands asg ar v f"
  using assms unfolding select_edm_def
  by (auto split: if_splits prod.splits sum.splits)

lemma select_edm_status:
  assumes "select_edm sel tn tm col cands w = (Inr r, w')"
  shows "status r = ''completed''"
  using assms
proof (cases rule: select_edm_cases)
  case empty
  then show ?thesis by simp
next
  case (run asg w1 ar v f)
  from collect_votes_failed [OF run(4)] have "f = 0" .
  with run(5) show ?thesis by (simp add: edm_selection_def Let_def)
qed

lemma select_status:
  "select sel tn tm col cands w = (Inr r, w') \<Longrightarrow> status r = ''completed''"
  by (auto simp: select_def split: if_splits prod.splits
           dest: select_edm_status select_single_status)


subsection \<open>Status derivation\<close>

lemma column_result_status:
  "col_status (column_result col st) =
     (if \<forall>s \<in> set (st_steps st). step_status s = ''failed'' then ''failed''
      else if \<exists>s \<in> set (st_steps st). step_status s = ''failed'' then ''partial''
      else ''completed'')"
  by (simp add: column_result_def Let_def list_all_iff list_ex_iff)

lemma run_bfs_no_expansion:
  assumes "ex_max_depth ex \<le> 0 \<or> get_children dag (dag_root dag) = []"
  shows "run_bfs ex dag tn tm col w =
           Inr \<lparr>st_queue = [], st_steps = [], st_final_paths = [],
                selection_cache = [], select_calls = [], st_world = w\<rparr>"
  using assms
  by (auto simp: run_bfs_def bfs_loop.simps [of _ _ _ _ _ "\<lparr>st_queue = [(0, dag_root dag, [])], st_steps = [], st_final_paths = [], selection_cache = [], select_calls = [], st_world = w\<rparr>"]
        bfs_loop.simps [of _ _ _ _ _ "\<lparr>st_queue = [], st_steps = [], st_final_paths = [], selection_cache = [], select_calls = [], st_world = w\<rparr>"]
        process_item_def add_terminal_def Let_def)

subsection \<open>Calls of the language model\<close>













subsection \<open>Invariants of the loop\<close>

lemma never_failed_invariant:
  assumes "run_bfs ex dag tn tm col w = Inr st"
  shows "(\<forall>s \<in> set (st_steps st). step_status s \<noteq> ''failed'') \<and>
         ((\<forall>s \<in> set (st_steps st). step_selected s = []) \<longrightarrow> st_final_paths st = [])"
proof -
  let ?I = "\<lambda>s. (\<forall>k r. map_of (selection_cache s) k = Some r \<longrightarrow> status r \<noteq> ''failed'') \<and>
                 (\<forall>x \<in> set (st_steps s). step_status x \<noteq> ''failed'') \<and>
                 ((\<forall>x \<in> set (st_steps s). step_selected x = []) \<longrightarrow>
                    st_final_paths s = [] \<and> (\<forall>(l, u, p) \<in> set (st_queue s). p = []))"
  have "?I st \<and> st_queue st = []"
  proof (rule bfs_loop_invariant [OF assms [unfolded run_bfs_def], where I = ?I])
    show "?I \<lparr>st_queue = [(0, dag_root dag, [])], st_steps = [], st_final_paths = [],
              selection_cache = [], select_calls = [], st_world = w\<rparr>"
      by simp
  next
    fix s item rest s'
    assume I: "?I s" and q: "st_queue s = item # rest"
      and p: "process_item ex dag tn tm col item (s\<lparr>st_queue := rest\<rparr>) = Inr s'"
    obtain lvl pu cp where item: "item = (lvl, pu, cp)" by (cases item)
    let ?s0 = "s\<lparr>st_queue := rest\<rparr>"
    have cp: "(\<forall>x \<in> set (st_steps s). step_selected x = []) \<Longrightarrow> cp = []"
      using I q item by auto
    have sel: "status result \<noteq> ''failed'' \<and>
               (\<forall>k r. map_of (selection_cache st1) k = Some r \<longrightarrow> status r \<noteq> ''failed'') \<and>
               st_steps st1 = st_steps s \<and> st_final_paths st1 = st_final_paths s \<and>
               st_queue st1 = rest"
      if "cached_select ex tn tm col pu cands ?s0 = Inr (result, st1)" for cands result st1
      using that
    proof (cases rule: cached_select_cases)
      case hit
      with I show ?thesis by auto
    next
      case (miss w1)
      from select_status [OF miss(2)] have "status result = ''completed''" .
      with I miss show ?thesis by (auto simp: update_conv')
    qed
    from p [unfolded item] show "?I s'"
    proof (cases rule: process_item_cases)
      case terminal
      with I q cp show ?thesis by (auto simp: add_terminal_def)
    next
      case (failed result st1)
      with sel [OF failed(2)] show ?thesis by simp
    next
      case (none result st1)
      with sel [OF none(2)] I q cp show ?thesis
        by (auto simp: add_terminal_def step_of_def)
    next
      case (expand result st1)
      with sel [OF expand(2)] I show ?thesis
        by (auto simp: step_of_def)
    qed
  qed
  then show ?thesis by simp
qed



subsection \<open>The run returns\<close>

lemma draw_sample_props:
  "k \<le> length pool \<Longrightarrow> distinct pool \<Longrightarrow>
     length (draw_sample src pos pool k) = k \<and> distinct (draw_sample src pos pool k) \<and>
     set (draw_sample src pos pool k) \<subseteq> set pool"
proof (induction k arbitrary: pos pool)
  case 0
  then show ?case by simp
next
  case (Suc k)
  then have ne: "pool \<noteq> []" by auto
  let ?j = "src pos mod length pool"
  let ?pool' = "take ?j pool @ drop (Suc ?j) pool"
  have j: "?j < length pool" using ne by simp
  have "distinct (take ?j pool @ pool ! ?j # drop (Suc ?j) pool)"
    using Suc.prems(2) by (simp only: id_take_nth_drop [OF j, symmetric])
  then have d: "distinct ?pool'" and notin: "pool ! ?j \<notin> set ?pool'"
    by auto
  have sub: "set ?pool' \<subseteq> set pool"
    using set_take_subset [of ?j pool] set_drop_subset [of "Suc ?j" pool] by auto
  have len: "k \<le> length ?pool'" using Suc.prems(1) j by simp
  from Suc.IH [OF len d, of "pos + 1"] notin sub ne j
  show ?case by (auto simp: Let_def)
qed


lemma append_to_agents:
  assumes "distinct S" "\<forall>a \<in> set S. a < length asg"
  shows "length (fold (\<lambda>agent asg. asg[agent := asg ! agent @ [cls]]) S asg) = length asg \<and>
         (\<forall>i < length asg.
            fold (\<lambda>agent asg. asg[agent := asg ! agent @ [cls]]) S asg ! i
              = (if i \<in> set S then asg ! i @ [cls] else asg ! i))"
  using assms
proof (induction S arbitrary: asg)
  case Nil
  then show ?case by simp
next
  case (Cons a S)
  let ?asg1 = "asg[a := asg ! a @ [cls]]"
  have "distinct S" "\<forall>x \<in> set S. x < length ?asg1" using Cons.prems by auto
  from Cons.IH [OF this] Cons.prems show ?case
    by (auto simp: nth_list_update)
qed

lemma drawn_agents:
  assumes "0 \<le> k"
  shows "\<exists>S w'. (if n < k then (Inr [0..<nat n], w)
                 else random_sample src n k w) = (Inr S, w') \<and>
           distinct S \<and> (\<forall>a \<in> set S. a < nat n) \<and>
           length S = (if n < k then nat n else nat k)"
proof (cases "n < k")
  case True
  then show ?thesis by simp
next
  case False
  with assms have k: "0 \<le> k" "k \<le> max 0 n" "nat k \<le> length [0..<nat n]" by auto
  from draw_sample_props [OF k(3), of src "rng_pos w"]
  show ?thesis using False k by (auto simp: random_sample_def)
qed

lemma count_after_append:
  assumes "distinct S" "\<forall>a \<in> set S. a < n"
    and "\<forall>i < n. (asg1 :: string list list) ! i = (if i \<in> set S then asg ! i @ [cls] else asg ! i)"
  shows "(\<Sum>i < n. count_list (asg1 ! i) c)
           = (\<Sum>i < n. count_list (asg ! i) c) + (if c = cls then length S else 0)"
proof -
  have "(\<Sum>i < n. count_list (asg1 ! i) c)
          = (\<Sum>i < n. count_list (asg ! i) c + (if i \<in> set S \<and> c = cls then 1 else 0))"
    using assms(3) by (intro sum.cong) auto
  also have "\<dots> = (\<Sum>i < n. count_list (asg ! i) c)
                     + (\<Sum>i < n. if i \<in> set S \<and> c = cls then 1 else 0)"
    by (simp add: sum.distrib)
  also have "(\<Sum>i < n. if i \<in> set S \<and> c = cls then 1 else 0)
               = (if c = cls then card ({..<n} \<inter> set S) else 0)"
    by (simp add: sum.If_cases)
  also have "{..<n} \<inter> set S = set S" using assms(2) by auto
  also have "card (set S) = length S" using assms(1) by (rule distinct_card)
  finally show ?thesis .
qed

lemma assign_loop_props:
  assumes "0 \<le> k" "length asg = nat n"
  shows "\<exists>asg' w'. assign_loop sel classes n k asg w = (Inr asg', w') \<and>
           length asg' = length asg \<and>
           (\<forall>c. (\<Sum>i < length asg. count_list (asg' ! i) c)
                  = (\<Sum>i < length asg. count_list (asg ! i) c)
                    + (if n < k then nat n else nat k) * count_list classes c) \<and>
           (\<forall>i < length asg. \<forall>c. count_list (asg' ! i) c
                  \<le> count_list (asg ! i) c + count_list classes c) \<and>
           (n \<le> k \<longrightarrow> (\<forall>i < length asg. asg' ! i = asg ! i @ classes))"
  using assms(2)
proof (induction classes arbitrary: asg w)
  case Nil
  then show ?case by simp
next
  case (Cons cls classes)
  let ?m = "if n < k then nat n else nat k"
  from drawn_agents [OF assms(1), of n w "random_source sel"] obtain S w1 where
    S: "(if n < k then (Inr [0..<nat n], w)
         else random_sample (random_source sel) n k w) = (Inr S, w1)"
       "distinct S" "\<forall>a \<in> set S. a < nat n" "length S = ?m"
    by blast
  let ?asg1 = "fold (\<lambda>agent asg. asg[agent := asg ! agent @ [cls]]) S asg"
  have bound: "\<forall>a \<in> set S. a < length asg" using S(3) Cons.prems by simp
  note ap = append_to_agents [OF S(2) bound, of cls]
  then have len1: "length ?asg1 = nat n" using Cons.prems by simp
  from Cons.IH [OF len1, of w1] obtain asg' w' where
    rec: "assign_loop sel classes n k ?asg1 w1 = (Inr asg', w')"
      "length asg' = length ?asg1"
      "\<forall>c. (\<Sum>i < length ?asg1. count_list (asg' ! i) c)
            = (\<Sum>i < length ?asg1. count_list (?asg1 ! i) c) + ?m * count_list classes c"
      "\<forall>i < length ?asg1. \<forall>c. count_list (asg' ! i) c
            \<le> count_list (?asg1 ! i) c + count_list classes c"
      "n \<le> k \<longrightarrow> (\<forall>i < length ?asg1. asg' ! i = ?asg1 ! i @ classes)"
    by blast
  have run: "assign_loop sel (cls # classes) n k asg w = (Inr asg', w')"
    using S(1) rec(1) by (simp split: if_splits)
  have la: "length ?asg1 = length asg" using ap by simp
  have nth1: "\<forall>i < length asg. ?asg1 ! i = (if i \<in> set S then asg ! i @ [cls] else asg ! i)"
    using ap by simp
  have cnt: "(\<Sum>i < length asg. count_list (?asg1 ! i) c)
               = (\<Sum>i < length asg. count_list (asg ! i) c) + (if c = cls then ?m else 0)" for c
    using count_after_append [OF S(2) bound nth1, of c] S(4) by simp
  have total: "(\<Sum>i < length asg. count_list (asg' ! i) c)
                 = (\<Sum>i < length asg. count_list (asg ! i) c)
                   + ?m * count_list (cls # classes) c" for c
    using rec(3) la cnt [of c] by (simp add: algebra_simps)
  have each: "count_list (asg' ! i) c \<le> count_list (asg ! i) c + count_list (cls # classes) c"
    if "i < length asg" for i c
  proof -
    have "count_list (?asg1 ! i) c \<le> count_list (asg ! i) c + (if c = cls then 1 else 0)"
      using nth1 that by simp
    moreover have "count_list (asg' ! i) c \<le> count_list (?asg1 ! i) c + count_list classes c"
      using rec(4) la that by simp
    ultimately show ?thesis by (auto split: if_splits)
  qed
  have everyone: "asg' ! i = asg ! i @ cls # classes" if "n \<le> k" "i < length asg" for i
  proof -
    have "card (set S) = nat n"
      using that(1) S(4) assms(1) distinct_card [OF S(2)] by (auto split: if_splits)
    moreover have "set S \<subseteq> {..<nat n}" using S(3) by auto
    ultimately have "set S = {..<nat n}" by (simp add: card_subset_eq)
    then have "i \<in> set S" using that(2) Cons.prems by simp
    then have "?asg1 ! i = asg ! i @ [cls]" using nth1 that(2) by simp
    moreover have "asg' ! i = ?asg1 ! i @ classes" using rec(5) that la by simp
    ultimately show ?thesis by simp
  qed
  show ?case
    using run rec(2) la total each everyone by (intro exI [of _ asg'] exI [of _ w']) simp
qed


lemma num_agents_for_ge: "agents_per_class opts \<le> num_agents_for opts cands"
  by (simp add: num_agents_for_def)

lemma assign_classes_props:
  assumes "0 \<le> agents_per_class opts"
  shows "\<exists>asg w'. assign_classes_to_agents sel cands (num_agents_for opts cands)
                     (agents_per_class opts) w = (Inr asg, w') \<and>
           int (length asg) = num_agents_for opts cands \<and>
           (\<forall>c. sum_list (map (\<lambda>a. count_list a c) asg)
                  = nat (agents_per_class opts) * count_list cands c) \<and>
           (\<forall>a \<in> set asg. \<forall>c. count_list a c \<le> count_list cands c) \<and>
           (num_agents_for opts cands = agents_per_class opts \<longrightarrow> (\<forall>a \<in> set asg. a = cands))"
proof -
  let ?n = "num_agents_for opts cands" and ?k = "agents_per_class opts"
  let ?asg0 = "replicate (nat ?n) ([] :: string list)"
  have nk: "?k \<le> ?n" by (rule num_agents_for_ge)
  have n1: "1 \<le> ?n"
    using assms by (cases "?k = 0") (auto simp: num_agents_for_def)
  have len0: "length ?asg0 = nat ?n" by simp
  from assign_loop_props [OF assms len0, of sel cands w] obtain asg w' where
    a: "assign_loop sel cands ?n ?k ?asg0 w = (Inr asg, w')"
       "length asg = length ?asg0"
       "\<forall>c. (\<Sum>i < length ?asg0. count_list (asg ! i) c)
            = (\<Sum>i < length ?asg0. count_list (?asg0 ! i) c)
              + (if ?n < ?k then nat ?n else nat ?k) * count_list cands c"
       "\<forall>i < length ?asg0. \<forall>c. count_list (asg ! i) c
            \<le> count_list (?asg0 ! i) c + count_list cands c"
       "?n \<le> ?k \<longrightarrow> (\<forall>i < length ?asg0. asg ! i = ?asg0 ! i @ cands)"
    by blast
  have len: "length asg = nat ?n" using a(2) by simp
  then have ne: "asg \<noteq> []" using n1 by auto
  have run: "assign_classes_to_agents sel cands ?n ?k w = (Inr asg, w')"
    using a(1) ne by (simp add: assign_classes_to_agents_def)
  have total: "sum_list (map (\<lambda>a. count_list a c) asg) = nat ?k * count_list cands c" for c
  proof -
    have "sum_list (map (\<lambda>a. count_list a c) asg) = (\<Sum>i < length asg. count_list (asg ! i) c)"
      by (simp add: sum_list_sum_nth atLeast0LessThan)
    also have "\<dots> = (\<Sum>i < nat ?n. count_list (?asg0 ! i) c) + nat ?k * count_list cands c"
      using a(3) nk len by simp
    also have "(\<Sum>i < nat ?n. count_list (?asg0 ! i) c) = 0" by simp
    finally show ?thesis by simp
  qed
  have each: "count_list x c \<le> count_list cands c" if "x \<in> set asg" for x c
  proof -
    from that obtain i where "i < length asg" "x = asg ! i" by (auto simp: in_set_conv_nth)
    with a(4) len show ?thesis by simp
  qed
  have everyone: "x = cands" if "?n = ?k" "x \<in> set asg" for x
  proof -
    from that(2) obtain i where "i < length asg" "x = asg ! i" by (auto simp: in_set_conv_nth)
    with a(5) that(1) len show ?thesis by simp
  qed
  show ?thesis
    using run len n1 total each everyone by (intro exI [of _ asg] exI [of _ w']) auto
qed

lemma fold_votes:
  "fold (\<lambda>cls votes. votes(cls := votes cls + 1)) xs v c = v c + int (count_list xs c)"
  by (induction xs arbitrary: v) auto

lemma collect_votes_props:
  "collect_votes sel tn tm col pairs (ar, v, f) w = ((ar', v', f'), w') \<Longrightarrow>
     \<exists>new. ar' = ar @ new \<and> map assigned_classes new = map snd pairs \<and>
       (\<forall>c. v' c = v c + sum_list (map (\<lambda>a. int (count_list (voted_classes a) c)) new)) \<and>
       (\<forall>a \<in> set new. voted_classes a = parsed_votes a)"
proof (induction pairs arbitrary: ar v w)
  case Nil
  then show ?case by simp
next
  case (Cons p pairs)
  obtain aid ac where p: "p = (aid, ac)" by (cases p)
  have "\<exists>a v1 w1. collect_votes sel tn tm col pairs (ar @ [a], v1, f) w1 = ((ar', v', f'), w') \<and>
          assigned_classes a = ac \<and>
          (\<forall>c. v1 c = v c + int (count_list (voted_classes a) c)) \<and>
          voted_classes a = parsed_votes a"
  proof (cases "ac = []")
    case True
    with Cons.prems show ?thesis
      unfolding p
      by (intro exI [of _ "\<lparr>agent_id = aid, assigned_classes = ac,
               agent_llm_request = None, agent_llm_response = None,
               voted_classes = [], agent_status = ''success'', agent_error = None\<rparr>"]
             exI [of _ v] exI [of _ w]) (simp add: parsed_votes_def)
  next
    case False
    let ?data = "\<lparr>d_table_name = tn, d_table_in_markdown = tm, d_column_name = col,
                   d_current_level_ontology_classes = join '', '' ac\<rparr>"
    obtain request response w1 where
      c: "call_llm_with_retry sel ?data w = ((request, response), w1)"
      by (metis prod.exhaust)
    show ?thesis
    proof (cases "answer response \<noteq> [] \<and> answer response \<noteq> ''-''")
      case True
      let ?valid = "[c \<leftarrow> parse_class_list (answer response). c \<in> set ac]"
      from Cons.prems False c True show ?thesis
        unfolding p
        by (intro exI [of _ "\<lparr>agent_id = aid, assigned_classes = ac,
               agent_llm_request = Some request, agent_llm_response = Some response,
               voted_classes = ?valid, agent_status = ''success'', agent_error = None\<rparr>"]
             exI [of _ "fold (\<lambda>cls votes. votes(cls := votes cls + 1)) ?valid v"]
             exI [of _ w1]) (auto simp: Let_def fold_votes parsed_votes_def)
    next
      case no: False
      from Cons.prems False c no show ?thesis
        unfolding p
        by (intro exI [of _ "\<lparr>agent_id = aid, assigned_classes = ac,
               agent_llm_request = Some request, agent_llm_response = Some response,
               voted_classes = [], agent_status = ''success'', agent_error = None\<rparr>"]
             exI [of _ v] exI [of _ w1]) (auto simp: Let_def parsed_votes_def)
    qed
  qed
  then obtain a v1 w1 where
    step: "collect_votes sel tn tm col pairs (ar @ [a], v1, f) w1 = ((ar', v', f'), w')"
      "assigned_classes a = ac"
      "\<forall>c. v1 c = v c + int (count_list (voted_classes a) c)"
      "voted_classes a = parsed_votes a"
    by blast
  from Cons.IH [OF step(1)] obtain new where
    new: "ar' = (ar @ [a]) @ new" "map assigned_classes new = map snd pairs"
      "\<forall>c. v' c = v1 c + sum_list (map (\<lambda>a. int (count_list (voted_classes a) c)) new)"
      "\<forall>a \<in> set new. voted_classes a = parsed_votes a"
    by blast
  show ?case
    using new step(2,3,4) p by (intro exI [of _ "a # new"]) auto
qed

lemma enumerate_from_one_snd: "map snd (enumerate_from_one xs) = xs"
  unfolding enumerate_from_one_def by (rule map_snd_zip) (simp del: upt_Suc)

lemma collect_votes_total:
  "\<exists>ar' v' f' w'. collect_votes sel tn tm col pairs acc w = ((ar', v', f'), w')"
  by (metis prod.exhaust)

lemma select_edm_returns:
  assumes "classes_per_agent (edm_options sel) \<noteq> 0" "0 \<le> agents_per_class (edm_options sel)"
  shows "\<exists>r w'. select_edm sel tn tm col cands w = (Inr r, w')"
proof (cases "cands = []")
  case True
  then show ?thesis by (simp add: select_edm_def)
next
  case False
  from assign_classes_props [OF assms(2), of sel cands w] obtain asg w1 where
    a: "assign_classes_to_agents sel cands (num_agents_for (edm_options sel) cands)
          (agents_per_class (edm_options sel)) w = (Inr asg, w1)" by blast
  from collect_votes_total [of sel tn tm col "enumerate_from_one asg" "([], (\<lambda>c. 0), 0)" w1]
  obtain ar v f w2 where
    "collect_votes sel tn tm col (enumerate_from_one asg) ([], (\<lambda>c. 0), 0) w1 = ((ar, v, f), w2)"
    by blast
  with a False assms(1) show ?thesis by (simp add: select_edm_def)
qed

lemma select_returns:
  assumes "mode sel \<noteq> ''edm'' \<or>
           (classes_per_agent (edm_options sel) \<noteq> 0 \<and> 0 \<le> agents_per_class (edm_options sel))"
  shows "\<exists>r w'. select sel tn tm col cands w = (Inr r, w')"
proof (cases "mode sel = ''edm''")
  case True
  with assms select_edm_returns [of sel tn tm col cands w] show ?thesis
    by (simp add: select_def)
next
  case False
  then show ?thesis by (simp add: select_def split: prod.splits)
qed

lemma process_item_returns:
  assumes "mode (selector ex) \<noteq> ''edm'' \<or>
           (classes_per_agent (edm_options (selector ex)) \<noteq> 0 \<and>
            0 \<le> agents_per_class (edm_options (selector ex)))"
  shows "\<exists>st'. process_item ex dag tn tm col item st = Inr st'"
proof -
  obtain lvl pu cp where item: "item = (lvl, pu, cp)" by (cases item)
  have "\<exists>r st1. cached_select ex tn tm col pu cands st = Inr (r, st1)" for cands
  proof (cases "map_of (selection_cache st) pu")
    case None
    from select_returns [OF assms, of tn tm col cands "st_world st"] obtain r w' where
      "select (selector ex) tn tm col cands (st_world st) = (Inr r, w')" by blast
    with None show ?thesis by (simp add: cached_select_def)
  next
    case (Some r)
    then show ?thesis by (simp add: cached_select_def)
  qed
  then obtain r st1 where
    "cached_select ex tn tm col pu (candidate_names dag (get_children dag pu)) st = Inr (r, st1)"
    by blast
  then show ?thesis unfolding item by (simp add: process_item_def Let_def)
qed

lemma bfs_loop_returns:
  assumes "mode (selector ex) \<noteq> ''edm'' \<or>
           (classes_per_agent (edm_options (selector ex)) \<noteq> 0 \<and>
            0 \<le> agents_per_class (edm_options (selector ex)))"
  shows "\<exists>st'. bfs_loop ex dag tn tm col st = Inr st'"
  using assms
proof (induction ex dag tn tm col st rule: bfs_loop.induct)
  case (1 ex dag tn tm col st)
  show ?case
  proof (cases "st_queue st")
    case Nil
    then show ?thesis by (simp add: bfs_loop.simps)
  next
    case (Cons item rest)
    from process_item_returns [OF "1.prems", of dag tn tm col item "st\<lparr>st_queue := rest\<rparr>"]
    obtain s1 where p: "process_item ex dag tn tm col item (st\<lparr>st_queue := rest\<rparr>) = Inr s1"
      by blast
    from "1.IH" [OF Cons p "1.prems"] obtain st' where "bfs_loop ex dag tn tm col s1 = Inr st'"
      by blast
    with Cons p show ?thesis by (subst bfs_loop.simps) simp
  qed
qed


section \<open>Main results on the traversal\<close>

text \<open>
  C1. On the graph \<open>R \<rightarrow> {A, B}\<close>, \<open>B \<rightarrow> {C}\<close> with depth bound 3, a single-strategy oracle
  that selects only \<open>A\<close> at level 0 yields the terminal paths \<open>[[A]]\<close> and status
  \<open>completed\<close>: \<open>B\<close> is never put on the queue. The paths \<open>[[A], [B, C]]\<close> are the result
  when the oracle selects both \<open>A\<close> and \<open>B\<close> at level 0 and \<open>C\<close> at level 1.
\<close>

theorem scenario_paths:
  "paths_and_status
     (execute_column (RunExecutor_init ''single'' llm_selects_A)
        ''table'' ''| a |'' ''col'' scenario_dag world0)
     = Some ([[''A'']], ''completed'') \<and>
   paths_and_status
     (execute_column (RunExecutor_init ''single'' llm_selects_A_and_B)
        ''table'' ''| a |'' ''col'' scenario_dag world0)
     = Some ([[''A''], [''B'', ''C'']], ''completed'')"
  by code_simp

text \<open>
  The scenario as first stated, with the oracle selecting \<open>A\<close> alone at level 0, does not
  produce the paths \<open>[[A], [B, C]]\<close>.
\<close>

theorem scenario_paths_counterexample:
  "paths_and_status
     (execute_column (RunExecutor_init ''single'' llm_selects_A)
        ''table'' ''| a |'' ''col'' scenario_dag world0)
     \<noteq> Some ([[''A''], [''B'', ''C'']], ''completed'')"
  by code_simp

lemma execute_column_run:
  assumes "execute_column ex tn tm col dag w = Inr (res, w')"
  obtains st where "run_bfs ex dag tn tm col w = Inr st" "res = column_result col st"
    "w' = st_world st"
  using assms by (auto simp: execute_column_def split: sum.splits)

lemma column_result_fields:
  "steps (column_result col st) = st_steps st"
  "final_paths (column_result col st)
     = (if st_final_paths st = [] then [[]] else st_final_paths st)"
  by (simp_all add: column_result_def Let_def)

text \<open>
  C3. The status of the column result is \<open>failed\<close> when every recorded step has status
  \<open>failed\<close>, \<open>partial\<close> when some but not all have, and \<open>completed\<close> otherwise,
  whatever steps the loop has recorded. With no recorded step the first case applies and
  the status is \<open>failed\<close>; no step is recorded when the depth bound is not positive or
  the root has no children. The result of \<open>execute_column\<close> is built by this rule from
  the final state of the loop. Since the selector of the executor never reports
  \<open>failed\<close>, a run that records a step ends \<open>completed\<close>.
\<close>

theorem column_status_derivation:
  "col_status (column_result col st) =
     (if \<forall>s \<in> set (st_steps st). step_status s = ''failed'' then ''failed''
      else if \<exists>s \<in> set (st_steps st). step_status s = ''failed'' then ''partial''
      else ''completed'') \<and>
   steps (column_result col st) = st_steps st \<and>
   (st_steps st = [] \<longrightarrow> col_status (column_result col st) = ''failed'') \<and>
   (\<forall>res w'. execute_column ex tn tm col dag w = Inr (res, w') \<longrightarrow>
      (\<exists>st'. run_bfs ex dag tn tm col w = Inr st' \<and> res = column_result col st') \<and>
      col_status res =
        (if \<forall>s \<in> set (steps res). step_status s = ''failed'' then ''failed''
         else if \<exists>s \<in> set (steps res). step_status s = ''failed'' then ''partial''
         else ''completed'') \<and>
      (\<forall>s \<in> set (steps res). step_status s \<noteq> ''failed'') \<and>
      col_status res = (if steps res = [] then ''failed'' else ''completed'') \<and>
      (ex_max_depth ex \<le> 0 \<or> get_children dag (dag_root dag) = [] \<longrightarrow>
         steps res = [] \<and> col_status res = ''failed''))"
proof (intro conjI allI impI)
  show a: "col_status (column_result col st) =
     (if \<forall>s \<in> set (st_steps st). step_status s = ''failed'' then ''failed''
      else if \<exists>s \<in> set (st_steps st). step_status s = ''failed'' then ''partial''
      else ''completed'')"
    by (rule column_result_status)
  show "steps (column_result col st) = st_steps st" by (simp add: column_result_fields)
  show "col_status (column_result col st) = ''failed''" if "st_steps st = []"
    using that by (simp add: column_result_status)
next
  fix res w'
  assume e: "execute_column ex tn tm col dag w = Inr (res, w')"
  then obtain st' where st: "run_bfs ex dag tn tm col w = Inr st'"
    "res = column_result col st'"
    by (rule execute_column_run)
  then show "\<exists>st'. run_bfs ex dag tn tm col w = Inr st' \<and> res = column_result col st'"
    by (intro exI [of _ st']) simp
  show rule: "col_status res =
        (if \<forall>s \<in> set (steps res). step_status s = ''failed'' then ''failed''
         else if \<exists>s \<in> set (steps res). step_status s = ''failed'' then ''partial''
         else ''completed'')"
    unfolding st(2) column_result_fields by (rule column_result_status)
  from never_failed_invariant [OF st(1)]
  show nf: "\<forall>s \<in> set (steps res). step_status s \<noteq> ''failed''"
    unfolding st(2) column_result_fields by simp
  show "col_status res = (if steps res = [] then ''failed'' else ''completed'')"
  proof (cases "steps res")
    case Nil
    with rule show ?thesis by simp
  next
    case (Cons x xs)
    with nf have "\<not> (\<forall>s \<in> set (steps res). step_status s = ''failed'')"
      "\<not> (\<exists>s \<in> set (steps res). step_status s = ''failed'')" by auto
    with rule Cons show ?thesis by simp
  qed
  assume "ex_max_depth ex \<le> 0 \<or> get_children dag (dag_root dag) = []"
  from run_bfs_no_expansion [OF this, of tn tm col w] st
  have "steps res = []" by (simp add: column_result_fields)
  then show "steps res = []" .
  with rule show "col_status res = ''failed''" by simp
qed

text \<open>
  Recorded steps of which some, all or none failed; no recorded step; the run with depth
  bound 0; and the run of the scenario.
\<close>

theorem column_status_derivation_witness:
  "col_status (column_result ''col''
      (state_with_steps [step_with_status ''failed'', step_with_status ''completed'']))
     = ''partial'' \<and>
   col_status (column_result ''col''
      (state_with_steps [step_with_status ''failed'', step_with_status ''failed'']))
     = ''failed'' \<and>
   col_status (column_result ''col''
      (state_with_steps [step_with_status ''completed'', step_with_status ''completed'']))
     = ''completed'' \<and>
   col_status (column_result ''col'' (state_with_steps [])) = ''failed'' \<and>
   (\<exists>res w'. execute_column executor_depth0 ''table'' ''| a |'' ''col'' scenario_dag world0
                = Inr (res, w') \<and>
             steps res = [] \<and> col_status res = ''failed'') \<and>
   (\<exists>res w'. execute_column (RunExecutor_init ''single'' llm_selects_A)
                ''table'' ''| a |'' ''col'' scenario_dag world0 = Inr (res, w') \<and>
             steps res \<noteq> [] \<and> col_status res = ''completed'')"
proof (intro conjI)
  note general = column_status_derivation [THEN conjunct1]
  show "col_status (column_result ''col''
      (state_with_steps [step_with_status ''failed'', step_with_status ''completed'']))
     = ''partial''"
    using general [of "''col''"
        "state_with_steps [step_with_status ''failed'', step_with_status ''completed'']"]
    by (simp add: state_with_steps_def step_with_status_def)
  show "col_status (column_result ''col''
      (state_with_steps [step_with_status ''failed'', step_with_status ''failed'']))
     = ''failed''"
    using general [of "''col''"
        "state_with_steps [step_with_status ''failed'', step_with_status ''failed'']"]
    by (simp add: state_with_steps_def step_with_status_def)
  show "col_status (column_result ''col''
      (state_with_steps [step_with_status ''completed'', step_with_status ''completed'']))
     = ''completed''"
    using general [of "''col''"
        "state_with_steps [step_with_status ''completed'', step_with_status ''completed'']"]
    by (simp add: state_with_steps_def step_with_status_def)
  show "col_status (column_result ''col'' (state_with_steps [])) = ''failed''"
    using column_status_derivation [of "''col''" "state_with_steps []",
        THEN conjunct2, THEN conjunct2, THEN conjunct1]
    by (simp add: state_with_steps_def)
next
  let ?run = "execute_column executor_depth0 ''table'' ''| a |'' ''col'' scenario_dag world0"
  have "\<not> isl ?run" by code_simp
  then obtain res w' where e: "?run = Inr (res, w')" by (cases ?run) auto
  have d: "ex_max_depth executor_depth0 \<le> 0" by (simp add: executor_depth0_def)
  from column_status_derivation [of "''col''" _ executor_depth0 "''table''" "''| a |''"
      scenario_dag world0, THEN conjunct2, THEN conjunct2, THEN conjunct2, rule_format, OF e]
  have "ex_max_depth executor_depth0 \<le> 0 \<or> get_children scenario_dag (dag_root scenario_dag) = []
          \<longrightarrow> steps res = [] \<and> col_status res = ''failed''"
    by (elim conjE)
  with d have "steps res = [] \<and> col_status res = ''failed''" by simp
  with e show "\<exists>res w'. ?run = Inr (res, w') \<and> steps res = [] \<and> col_status res = ''failed''"
    by (intro exI [of _ res] exI [of _ w']) simp
next
  let ?run = "execute_column (RunExecutor_init ''single'' llm_selects_A)
                ''table'' ''| a |'' ''col'' scenario_dag world0"
  have "\<not> isl ?run" by code_simp
  then obtain res w' where e: "?run = Inr (res, w')" by (cases ?run) auto
  have "steps (fst (projr ?run)) \<noteq> []" by code_simp
  with e have ne: "steps res \<noteq> []" by simp
  from column_status_derivation [of "''col''" _ "RunExecutor_init ''single'' llm_selects_A"
      "''table''" "''| a |''" scenario_dag world0,
      THEN conjunct2, THEN conjunct2, THEN conjunct2, rule_format, OF e]
  have "col_status res = (if steps res = [] then ''failed'' else ''completed'')"
    by (elim conjE)
  with ne have "col_status res = ''completed''" by simp
  with e ne show "\<exists>res w'. ?run = Inr (res, w') \<and> steps res \<noteq> [] \<and> col_status res = ''completed''"
    by (intro exI [of _ res] exI [of _ w']) simp
qed

text \<open>
  C4. \<open>execute_column\<close> returns a result in the single strategy (and in the ensemble
  strategy unless its options make the sizing raise); a returned result never has an
  empty list of terminal paths, and when no step accepted a candidate the list is
  exactly \<open>[[]]\<close>. The selector never reports \<open>failed\<close>, so no \<open>[terminated]\<close> path
  arises.
\<close>

theorem final_paths_never_empty:
  "(mode (selector ex) \<noteq> ''edm'' \<or>
      (classes_per_agent (edm_options (selector ex)) \<noteq> 0 \<and>
       0 \<le> agents_per_class (edm_options (selector ex)))
      \<longrightarrow> (\<exists>res w'. execute_column ex tn tm col dag w = Inr (res, w'))) \<and>
   (\<forall>res w'. execute_column ex tn tm col dag w = Inr (res, w') \<longrightarrow>
      final_paths res \<noteq> [] \<and>
      ((\<forall>s \<in> set (steps res). step_selected s = []) \<longrightarrow> final_paths res = [[]]))"
proof (intro conjI impI allI)
  assume "mode (selector ex) \<noteq> ''edm'' \<or>
      (classes_per_agent (edm_options (selector ex)) \<noteq> 0 \<and>
       0 \<le> agents_per_class (edm_options (selector ex)))"
  from bfs_loop_returns [OF this, of dag tn tm col
      "\<lparr>st_queue = [(0, dag_root dag, [])], st_steps = [], st_final_paths = [],
        selection_cache = [], select_calls = [], st_world = w\<rparr>"]
  obtain st where "run_bfs ex dag tn tm col w = Inr st" unfolding run_bfs_def by (rule exE)
  then show "\<exists>res w'. execute_column ex tn tm col dag w = Inr (res, w')"
    by (simp add: execute_column_def)
next
  fix res w'
  assume "execute_column ex tn tm col dag w = Inr (res, w')"
  then obtain st where st: "run_bfs ex dag tn tm col w = Inr st" "res = column_result col st"
    by (rule execute_column_run)
  show "final_paths res \<noteq> []" unfolding st(2) by (simp add: column_result_fields)
  assume "\<forall>s \<in> set (steps res). step_selected s = []"
  with never_failed_invariant [OF st(1)] show "final_paths res = [[]]"
    unfolding st(2) by (simp add: column_result_fields)
qed

text \<open>The oracle that selects nothing on the scenario graph.\<close>

theorem final_paths_never_empty_witness:
  "\<exists>res w'. execute_column (RunExecutor_init ''single'' llm_selects_nothing)
               ''table'' ''| a |'' ''col'' scenario_dag world0 = Inr (res, w') \<and>
            final_paths res = [[]]"
proof -
  let ?run = "execute_column (RunExecutor_init ''single'' llm_selects_nothing)
                ''table'' ''| a |'' ''col'' scenario_dag world0"
  note fact = final_paths_never_empty [of "RunExecutor_init ''single'' llm_selects_nothing"
      "''table''" "''| a |''" "''col''" scenario_dag world0]
  have "mode (selector (RunExecutor_init ''single'' llm_selects_nothing)) \<noteq> ''edm''"
    by (simp add: RunExecutor_init_def DetailedSelector_init_def)
  then have "\<exists>res w'. ?run = Inr (res, w')"
    by (rule fact [THEN conjunct1, rule_format, OF disjI1])
  then obtain res w' where e: "?run = Inr (res, w')" by (elim exE)
  have "list_all (\<lambda>s. step_selected s = []) (steps (fst (projr ?run)))" by code_simp
  with e have a: "\<forall>s \<in> set (steps res). step_selected s = []" by (simp add: list_all_iff)
  from fact [THEN conjunct2, rule_format, OF e] a have "final_paths res = [[]]" by simp
  with e show ?thesis by (intro exI [of _ res] exI [of _ w']) simp
qed




section \<open>Main results on the selector\<close>

lemma three_attempts: "[0..<3] = [0, Suc 0, Suc (Suc 0)]"
  by (simp add: upt_rec numeral_3_eq_3)

text \<open>
  C6. With the default \<open>max_retries = 3\<close>, a call through the retry wrapper makes
  between one and three attempts and sleeps 1 second after a failed first attempt and
  2 seconds after a failed second one; there is no sleep after the last attempt, so no
  sleep of 4 seconds. When every attempt raises, the wrapper returns a response with
  an empty answer after three attempts, and the single strategy returns status
  \<open>completed\<close> with nothing selected.
\<close>

theorem retry_semantics:
  assumes "max_retries sel = 3"
  shows "(\<exists>n req resp w'.
            call_llm_with_retry sel data w = ((req, resp), w') \<and>
            1 \<le> n \<and> n \<le> 3 \<and>
            llm_calls w' = llm_calls w @ replicate n data \<and>
            sleeps w' = sleeps w @ take (n - 1) [1, 2] \<and>
            ((\<forall>h. isl (llm_generate sel h data)) \<longrightarrow> n = 3 \<and> answer resp = [])) \<and>
         ((\<forall>h d. isl (llm_generate sel h d)) \<longrightarrow>
            status (fst (select_single sel tn tm col cands w)) = ''completed'' \<and>
            selected (fst (select_single sel tn tm col cands w)) = [])"
proof (intro conjI impI)
  let ?h0 = "llm_calls w"
  let ?h1 = "llm_calls w @ [data]"
  let ?h2 = "llm_calls w @ [data, data]"
  note defs = call_llm_with_retry_def assms three_attempts Let_def
  show "\<exists>n req resp w'.
            call_llm_with_retry sel data w = ((req, resp), w') \<and>
            1 \<le> n \<and> n \<le> 3 \<and>
            llm_calls w' = llm_calls w @ replicate n data \<and>
            sleeps w' = sleeps w @ take (n - 1) [1, 2] \<and>
            ((\<forall>h. isl (llm_generate sel h data)) \<longrightarrow> n = 3 \<and> answer resp = [])"
  proof (cases "llm_generate sel ?h0 data")
    case (Inr raw0)
    then have "(\<forall>h. isl (llm_generate sel h data)) = False" by (metis sum.disc(2))
    with Inr show ?thesis
      by (intro exI [of _ 1]) (simp add: defs)
  next
    case e0: (Inl e0)
    show ?thesis
    proof (cases "llm_generate sel ?h1 data")
      case (Inr raw1)
      then have "(\<forall>h. isl (llm_generate sel h data)) = False" by (metis sum.disc(2))
      with Inr e0 show ?thesis
        by (intro exI [of _ 2]) (simp add: defs numeral_2_eq_2)
    next
      case e1: (Inl e1)
      show ?thesis
      proof (cases "llm_generate sel ?h2 data")
        case (Inr raw2)
        then have "(\<forall>h. isl (llm_generate sel h data)) = False" by (metis sum.disc(2))
        with Inr e0 e1 show ?thesis
          by (intro exI [of _ 3]) (auto simp: defs numeral_3_eq_3)
      next
        case e2: (Inl e2)
        with e0 e1 show ?thesis
          by (intro exI [of _ 3]) (simp add: defs numeral_3_eq_3)
      qed
    qed
  qed
next
  assume fails: "\<forall>h d. isl (llm_generate sel h d)"
  have ans: "answer resp = []" if "call_llm_with_retry sel d w = ((req, resp), w')"
    for d req resp w'
  proof -
    obtain e0 where e0: "llm_generate sel (llm_calls w) d = Inl e0"
      using fails by (metis sum.collapse(1))
    obtain e1 where e1: "llm_generate sel (llm_calls w @ [d]) d = Inl e1"
      using fails by (metis sum.collapse(1))
    obtain e2 where e2: "llm_generate sel (llm_calls w @ [d, d]) d = Inl e2"
      using fails by (metis sum.collapse(1))
    from e0 e1 e2 that show ?thesis
      by (auto simp: call_llm_with_retry_def assms three_attempts Let_def)
  qed
  show "status (fst (select_single sel tn tm col cands w)) = ''completed''"
    by (cases "select_single sel tn tm col cands w") (simp add: select_single_status)
  show "selected (fst (select_single sel tn tm col cands w)) = []"
    by (auto simp: select_single_def Let_def split: prod.splits dest: ans)
qed

text \<open>The oracle that always raises: three attempts, sleeps of 1 and 2 seconds.\<close>

theorem retry_semantics_witness:
  "\<exists>req resp w'.
      call_llm_with_retry (DetailedSelector_init ''single'' llm_always_fails) scenario_data world0
        = ((req, resp), w') \<and>
      length (llm_calls w') = 3 \<and> sleeps w' = [1, 2] \<and> answer resp = []"
proof -
  let ?sel = "DetailedSelector_init ''single'' llm_always_fails"
  have m: "max_retries ?sel = 3" by (simp add: DetailedSelector_init_def)
  have f: "\<forall>h. isl (llm_generate ?sel h scenario_data)"
    by (simp add: DetailedSelector_init_def llm_always_fails_def)
  from retry_semantics [OF m, THEN conjunct1, of scenario_data world0]
  obtain n req resp w' where
    r: "call_llm_with_retry ?sel scenario_data world0 = ((req, resp), w')"
       "llm_calls w' = llm_calls world0 @ replicate n scenario_data"
       "sleeps w' = sleeps world0 @ take (n - 1) [1, 2]"
       "(\<forall>h. isl (llm_generate ?sel h scenario_data)) \<longrightarrow> n = 3 \<and> answer resp = []"
    by (elim exE conjE)
  from r(4) f have n: "n = 3" "answer resp = []" by simp_all
  from r(2,3) n have "length (llm_calls w') = 3" "sleeps w' = [1, 2]"
    by (simp_all add: world0_def)
  with r(1) n show ?thesis by (intro exI [of _ req] exI [of _ resp] exI [of _ w']) simp
qed

text \<open>The sleeps of that run are not 1, 2 and 4 seconds.\<close>

theorem retry_sleeps_counterexample:
  "sleeps (snd (call_llm_with_retry (DetailedSelector_init ''single'' llm_always_fails)
                  scenario_data world0)) \<noteq> [1, 2, 4]"
  by code_simp

lemma build_vote_summaries_selected:
  "map class_name (filter vs_selected (build_vote_summaries cands asg v thr))
     = [c \<leftarrow> cands. agents_that_saw_class asg c > 0 \<and>
          float_ge (true_div (v c) (agents_that_saw_class asg c)) thr \<and> v c > 0]"
  by (induction cands) (simp_all add: Let_def)

lemma build_vote_summaries_entries:
  "vs \<in> set (build_vote_summaries cands asg v thr) \<Longrightarrow>
     class_name vs \<in> set cands \<and>
     vote_count vs = v (class_name vs) \<and>
     vs_total_agents vs = agents_that_saw_class asg (class_name vs) \<and>
     vs_total_agents vs > 0 \<and>
     percentage vs = true_div (vote_count vs) (vs_total_agents vs) \<and>
     (vs_selected vs \<longleftrightarrow> float_ge (percentage vs) thr \<and> vote_count vs > 0)"
  by (induction cands) (auto simp: Let_def split: if_splits)

lemma saw_is_seen_by:
  "agents_that_saw_class (map assigned_classes ags) c = seen_by ags c"
  by (simp add: agents_that_saw_class_def seen_by_def filter_map o_def)

lemma select_edm_agents:
  assumes "select_edm sel tn tm col cands w = (Inr res, w')" "edm_result res = Some er"
  obtains asg v w1 where
    "cands \<noteq> []" "classes_per_agent (edm_options sel) \<noteq> 0"
    "assign_classes_to_agents sel cands (num_agents_for (edm_options sel) cands)
       (agents_per_class (edm_options sel)) w = (Inr asg, w1)"
    "map assigned_classes (agents er) = asg"
    "\<forall>c. v c = votes_for (agents er) c"
    "\<forall>a \<in> set (agents er). voted_classes a = parsed_votes a"
    "res = edm_selection (consensus_threshold (edm_options sel)) cands asg (agents er) v 0"
    "total_agents er = int (length asg)"
    "votes_summary er = sort_key (\<lambda>x. - vote_count x)
       (build_vote_summaries cands asg v (consensus_threshold (edm_options sel)))"
  using assms(1)
proof (cases rule: select_edm_cases)
  case empty
  with assms(2) show ?thesis by simp
next
  case (run asg w1 ar v f)
  from collect_votes_failed [OF run(4)] have f: "f = 0" .
  from collect_votes_props [OF run(4)] obtain new where
    new: "ar = [] @ new" "map assigned_classes new = map snd (enumerate_from_one asg)"
      "\<forall>c. v c = 0 + sum_list (map (\<lambda>a. int (count_list (voted_classes a) c)) new)"
      "\<forall>a \<in> set new. voted_classes a = parsed_votes a"
    by (elim exE conjE)
  from run(5) assms(2) have er: "agents er = ar" "total_agents er = int (length asg)"
    "votes_summary er = sort_key (\<lambda>x. - vote_count x)
       (build_vote_summaries cands asg v (consensus_threshold (edm_options sel)))"
    by (auto simp: edm_selection_def Let_def)
  show ?thesis
  proof (rule that [of asg w1 v])
    show "cands \<noteq> []" by (rule run(1))
    show "classes_per_agent (edm_options sel) \<noteq> 0" by (rule run(2))
    show "assign_classes_to_agents sel cands (num_agents_for (edm_options sel) cands)
       (agents_per_class (edm_options sel)) w = (Inr asg, w1)" by (rule run(3))
    show "map assigned_classes (agents er) = asg"
      using new(1,2) er(1) by (simp add: enumerate_from_one_snd)
    show "\<forall>c. v c = votes_for (agents er) c"
      using new(1,3) er(1) by (simp add: votes_for_def)
    show "\<forall>a \<in> set (agents er). voted_classes a = parsed_votes a"
      using new(1,4) er(1) by simp
    show "res = edm_selection (consensus_threshold (edm_options sel)) cands asg (agents er) v 0"
      using run(5) f er(1) by simp
    show "total_agents er = int (length asg)" by (rule er(2))
    show "votes_summary er = sort_key (\<lambda>x. - vote_count x)
       (build_vote_summaries cands asg v (consensus_threshold (edm_options sel)))"
      by (rule er(3))
  qed
qed

text \<open>
  The rule \<open>select_edm\<close> applies. A candidate is selected exactly when it was assigned to
  at least one agent and the float \<open>votes / seen_by\<close> reaches the threshold, with at
  least one vote. The valid votes of an agent are the names of its parsed answer that
  lie in its own assignment, and the votes of a candidate are the number of times it
  occurs in the valid votes of the agents: an answer that names it twice counts twice.
\<close>

lemma select_edm_rule:
  assumes "select_edm sel tn tm col cands w = (Inr res, w')" "edm_result res = Some er"
  shows "selected res =
           [c \<leftarrow> cands. seen_by (agents er) c > 0 \<and>
              accepted (consensus_threshold (edm_options sel)) (agents er) c] \<and>
         (\<forall>vs \<in> set (votes_summary er).
            vote_count vs = votes_for (agents er) (class_name vs) \<and>
            vs_total_agents vs = seen_by (agents er) (class_name vs) \<and>
            vs_total_agents vs > 0 \<and>
            percentage vs = true_div (vote_count vs) (vs_total_agents vs) \<and>
            (vs_selected vs \<longleftrightarrow>
               float_ge (percentage vs) (consensus_threshold (edm_options sel)) \<and>
               vote_count vs > 0)) \<and>
         (\<forall>a \<in> set (agents er). voted_classes a = parsed_votes a)"
proof -
  let ?thr = "consensus_threshold (edm_options sel)"
  from assms obtain asg v and w1 :: world where
    a: "map assigned_classes (agents er) = asg"
       "\<forall>c. v c = votes_for (agents er) c"
       "\<forall>a \<in> set (agents er). voted_classes a = parsed_votes a"
       "res = edm_selection ?thr cands asg (agents er) v 0"
       "votes_summary er = sort_key (\<lambda>x. - vote_count x)
          (build_vote_summaries cands asg v ?thr)"
    by (rule select_edm_agents)
  have saw: "agents_that_saw_class asg c = seen_by (agents er) c" for c
    unfolding a(1) [symmetric] by (rule saw_is_seen_by)
  have sel: "selected res =
           [c \<leftarrow> cands. seen_by (agents er) c > 0 \<and> accepted ?thr (agents er) c]"
    unfolding a(4)
    by (simp add: edm_selection_def Let_def build_vote_summaries_selected saw a(2)
          accepted_def)
  note summ = a(5)
  have entries: "vote_count vs = votes_for (agents er) (class_name vs) \<and>
            vs_total_agents vs = seen_by (agents er) (class_name vs) \<and>
            vs_total_agents vs > 0 \<and>
            percentage vs = true_div (vote_count vs) (vs_total_agents vs) \<and>
            (vs_selected vs \<longleftrightarrow> float_ge (percentage vs) ?thr \<and> vote_count vs > 0)"
    if "vs \<in> set (votes_summary er)" for vs
  proof -
    from that have "vs \<in> set (build_vote_summaries cands asg v ?thr)"
      unfolding summ by simp
    from build_vote_summaries_entries [OF this] show ?thesis
      by (simp add: saw a(2))
  qed
  show ?thesis
  proof (intro conjI)
    show "selected res =
           [c \<leftarrow> cands. seen_by (agents er) c > 0 \<and> accepted ?thr (agents er) c]"
      by (rule sel)
    show "\<forall>vs \<in> set (votes_summary er).
            vote_count vs = votes_for (agents er) (class_name vs) \<and>
            vs_total_agents vs = seen_by (agents er) (class_name vs) \<and>
            vs_total_agents vs > 0 \<and>
            percentage vs = true_div (vote_count vs) (vs_total_agents vs) \<and>
            (vs_selected vs \<longleftrightarrow> float_ge (percentage vs) ?thr \<and> vote_count vs > 0)"
      by (intro ballI) (rule entries)
    show "\<forall>a \<in> set (agents er). voted_classes a = parsed_votes a"
      by (rule a(3))
  qed
qed

text \<open>
  Rounding decides the comparison: at the threshold \<open>0.8\<close> four votes of five agents are
  accepted, and so are five votes of seven agents at the threshold \<open>0.7142857142857143\<close>,
  although \<open>5/7\<close> is below the number that float denotes.
\<close>

lemma float_comparison_examples:
  "float_ge (true_div 4 5) (Finite (to_double (8 / 10)))"
  "float_ge (true_div 5 7) (Finite (to_double (7142857142857143 / 10000000000000000)))"
  "(5 / 7 :: rat) < to_double (7142857142857143 / 10000000000000000)"
  "\<not> float_ge (true_div 2 3) (Finite (to_double (8 / 10)))"
  by code_simp+

text \<open>
  C2. The votes of a candidate are counted per mention and not per agent. With the
  default options (threshold 0.8) the single candidate \<open>A\<close> is seen by three agents.
  When the first agent answers \<open>A, A\<close>, the second \<open>A\<close> and the third selects nothing,
  two of the three agents that saw \<open>A\<close> voted for it, its vote count is 3, its
  percentage is 1 and it is selected; the rule as claimed gives \<open>2/3 < 0.8\<close> and no
  selection. When the first agent answers \<open>A, A, A, A\<close> and the others select nothing,
  one agent of three voted for \<open>A\<close>, its vote count is 4, its percentage is the float
  \<open>4/3\<close>, above 1, and it is selected.
\<close>

theorem repeated_mentions_selected:
  "edm_counts (select_edm (DetailedSelector_init ''edm'' llm_repeating_voter)
                 ''table'' ''| a |'' ''col'' [''A''] world0) ''A''
     = Some (3, 2, 3, True) \<and>
   edm_summary (select_edm (DetailedSelector_init ''edm'' llm_repeating_voter)
                 ''table'' ''| a |'' ''col'' [''A''] world0) ''A''
     = [(3, 3, 1, True)] \<and>
   edm_counts (select_edm (DetailedSelector_init ''edm'' llm_four_mentions)
                 ''table'' ''| a |'' ''col'' [''A''] world0) ''A''
     = Some (3, 1, 4, True) \<and>
   edm_summary (select_edm (DetailedSelector_init ''edm'' llm_four_mentions)
                 ''table'' ''| a |'' ''col'' [''A''] world0) ''A''
     = [(4, 3, true_div 4 3, True)] \<and>
   1 < true_div 4 3 \<and>
   \<not> float_ge (true_div 2 3) (Finite (to_double (8 / 10)))"
  by code_simp

lemma assign_classes_general:
  assumes "0 \<le> k" "1 \<le> n"
  shows "\<exists>asg w'. assign_classes_to_agents sel cands n k w = (Inr asg, w') \<and>
           int (length asg) = n \<and>
           (\<forall>c. sum_list (map (\<lambda>a. count_list a c) asg)
                  = (if n < k then nat n else nat k) * count_list cands c) \<and>
           (\<forall>a \<in> set asg. \<forall>c. count_list a c \<le> count_list cands c) \<and>
           (n \<le> k \<longrightarrow> (\<forall>a \<in> set asg. a = cands))"
proof -
  let ?asg0 = "replicate (nat n) ([] :: string list)"
  have len0: "length ?asg0 = nat n" by simp
  from assign_loop_props [OF assms(1) len0, of sel cands w] obtain asg w' where
    a: "assign_loop sel cands n k ?asg0 w = (Inr asg, w')"
       "length asg = length ?asg0"
       "\<forall>c. (\<Sum>i < length ?asg0. count_list (asg ! i) c)
            = (\<Sum>i < length ?asg0. count_list (?asg0 ! i) c)
              + (if n < k then nat n else nat k) * count_list cands c"
       "\<forall>i < length ?asg0. \<forall>c. count_list (asg ! i) c
            \<le> count_list (?asg0 ! i) c + count_list cands c"
       "n \<le> k \<longrightarrow> (\<forall>i < length ?asg0. asg ! i = ?asg0 ! i @ cands)"
    by blast
  have len: "length asg = nat n" using a(2) by simp
  then have ne: "asg \<noteq> []" using assms(2) by auto
  have run: "assign_classes_to_agents sel cands n k w = (Inr asg, w')"
    using a(1) ne by (simp add: assign_classes_to_agents_def)
  have total: "sum_list (map (\<lambda>a. count_list a c) asg)
                 = (if n < k then nat n else nat k) * count_list cands c" for c
  proof -
    have "sum_list (map (\<lambda>a. count_list a c) asg) = (\<Sum>i < length asg. count_list (asg ! i) c)"
      by (simp add: sum_list_sum_nth atLeast0LessThan)
    also have "\<dots> = (\<Sum>i < nat n. count_list (?asg0 ! i) c)
                      + (if n < k then nat n else nat k) * count_list cands c"
      using a(3) len by simp
    also have "(\<Sum>i < nat n. count_list (?asg0 ! i) c) = 0" by simp
    finally show ?thesis by simp
  qed
  have each: "count_list x c \<le> count_list cands c" if "x \<in> set asg" for x c
  proof -
    from that obtain i where "i < length asg" "x = asg ! i" by (auto simp: in_set_conv_nth)
    with a(4) len show ?thesis by simp
  qed
  have everyone: "x = cands" if "n \<le> k" "x \<in> set asg" for x
  proof -
    from that(2) obtain i where "i < length asg" "x = asg ! i" by (auto simp: in_set_conv_nth)
    with a(5) that(1) len show ?thesis by simp
  qed
  have l: "int (length asg) = n" using len assms(2) by simp
  show ?thesis
  proof (intro exI [of _ asg] exI [of _ w'] conjI allI ballI impI)
    show "assign_classes_to_agents sel cands n k w = (Inr asg, w')" by (rule run)
    show "int (length asg) = n" by (rule l)
    show "sum_list (map (\<lambda>a. count_list a c) asg)
                 = (if n < k then nat n else nat k) * count_list cands c" for c by (rule total)
    show "count_list x c \<le> count_list cands c" if "x \<in> set asg" for x c
      using that by (rule each)
    show "x = cands" if "n \<le> k" "x \<in> set asg" for x using that by (rule everyone)
  qed
qed

lemma ensemble_sizing_run:
  assumes "classes_per_agent (edm_options sel) \<noteq> 0" "0 \<le> agents_per_class (edm_options sel)"
    and "cands \<noteq> []"
  shows "\<exists>res w' er.
           select_edm sel tn tm col cands w = (Inr res, w') \<and> edm_result res = Some er \<and>
           total_agents er =
             max (agents_per_class (edm_options sel))
               ((int (length cands) * agents_per_class (edm_options sel))
                  div classes_per_agent (edm_options sel) + 1) \<and>
           int (length (agents er)) = total_agents er \<and>
           (\<forall>c. sum_list (map (\<lambda>a. count_list (assigned_classes a) c) (agents er))
                  = nat (agents_per_class (edm_options sel)) * count_list cands c) \<and>
           (\<forall>a \<in> set (agents er). \<forall>c. count_list (assigned_classes a) c \<le> count_list cands c) \<and>
           (length cands = 10 \<and> classes_per_agent (edm_options sel) = 30 \<and>
              agents_per_class (edm_options sel) = 3
              \<longrightarrow> total_agents er = 3 \<and> (\<forall>a \<in> set (agents er). assigned_classes a = cands))"
proof -
  let ?opts = "edm_options sel"
  from select_edm_returns [OF assms(1,2), of tn tm col cands w] obtain res w' where
    e: "select_edm sel tn tm col cands w = (Inr res, w')" by (elim exE)
  from e assms(3) obtain er where er: "edm_result res = Some er"
    by (cases rule: select_edm_cases) (simp_all add: edm_selection_def Let_def)
  from e er obtain asg and v :: "string \<Rightarrow> int" and w1 where
    a: "assign_classes_to_agents sel cands (num_agents_for ?opts cands)
          (agents_per_class ?opts) w = (Inr asg, w1)"
       "map assigned_classes (agents er) = asg"
       "total_agents er = int (length asg)"
    by (rule select_edm_agents)
  from assign_classes_props [OF assms(2), of sel cands w] a(1) have
    p: "int (length asg) = num_agents_for ?opts cands"
       "\<forall>c. sum_list (map (\<lambda>a. count_list a c) asg)
            = nat (agents_per_class ?opts) * count_list cands c"
       "\<forall>a \<in> set asg. \<forall>c. count_list a c \<le> count_list cands c"
       "num_agents_for ?opts cands = agents_per_class ?opts \<longrightarrow> (\<forall>a \<in> set asg. a = cands)"
    by auto
  have len: "length (agents er) = length asg" using a(2) by (metis length_map)
  have sums: "sum_list (map (\<lambda>a. count_list (assigned_classes a) c) (agents er))
                = sum_list (map (\<lambda>a. count_list a c) asg)" for c
    unfolding a(2) [symmetric] by (simp add: o_def)
  have mem: "assigned_classes x \<in> set asg" if "x \<in> set (agents er)" for x
    using that a(2) by (metis image_eqI set_map)
  have scen: "total_agents er = 3 \<and> (\<forall>a \<in> set (agents er). assigned_classes a = cands)"
    if "length cands = 10 \<and> classes_per_agent ?opts = 30 \<and> agents_per_class ?opts = 3"
  proof -
    from that have n: "num_agents_for ?opts cands = 3" by (simp add: num_agents_for_def)
    with that p(4) have "\<forall>a \<in> set asg. a = cands" by simp
    with mem have "\<forall>a \<in> set (agents er). assigned_classes a = cands" by blast
    with n a(3) p(1) show ?thesis by simp
  qed
  show ?thesis
  proof (intro exI [of _ res] exI [of _ w'] exI [of _ er] conjI)
    show "select_edm sel tn tm col cands w = (Inr res, w')" by (rule e)
    show "edm_result res = Some er" by (rule er)
    show "total_agents er = max (agents_per_class ?opts)
               ((int (length cands) * agents_per_class ?opts) div classes_per_agent ?opts + 1)"
      using a(3) p(1) by (simp add: num_agents_for_def)
    show "int (length (agents er)) = total_agents er" using len a(3) by simp
    show "\<forall>c. sum_list (map (\<lambda>a. count_list (assigned_classes a) c) (agents er))
                  = nat (agents_per_class ?opts) * count_list cands c"
      using sums p(2) by simp
    show "\<forall>a \<in> set (agents er). \<forall>c. count_list (assigned_classes a) c \<le> count_list cands c"
      using mem p(3) by blast
    show "length cands = 10 \<and> classes_per_agent ?opts = 30 \<and> agents_per_class ?opts = 3
              \<longrightarrow> total_agents er = 3 \<and> (\<forall>a \<in> set (agents er). assigned_classes a = cands)"
      using scen by (rule impI)
  qed
qed

text \<open>
  C7. An ensemble invocation without candidates returns the empty selection at once and
  creates no agent. For a non-empty candidate list, a non-zero \<open>classes_per_agent\<close> and
  a non-negative \<open>agents_per_class\<close> the invocation returns, the number of agents is
  \<open>max(agents_per_class, N * agents_per_class // classes_per_agent + 1)\<close>, every
  occurrence of a candidate is assigned to \<open>agents_per_class\<close> agents, to each of them
  once, and with 10 candidates, \<open>classes_per_agent = 30\<close> and \<open>agents_per_class = 3\<close>
  there are 3 agents and each is assigned all candidates, whatever the random source.
  \<open>_assign_classes_to_agents\<close> itself, for any positive number of agents, assigns every
  candidate to each agent when the number of agents is below \<open>agents_per_class\<close>; the
  ensemble never calls it so, since its number of agents is at least
  \<open>agents_per_class\<close>.
\<close>

theorem ensemble_sizing:
  "(cands = [] \<longrightarrow>
      select_edm sel tn tm col cands w
        = (Inr \<lparr>selected = [], status = ''completed'', error = None,
                llm_request = None, llm_response = None, edm_result = None\<rparr>, w)) \<and>
   (cands \<noteq> [] \<and> classes_per_agent (edm_options sel) \<noteq> 0 \<and>
    0 \<le> agents_per_class (edm_options sel) \<longrightarrow>
      (\<exists>res w' er.
           select_edm sel tn tm col cands w = (Inr res, w') \<and> edm_result res = Some er \<and>
           total_agents er =
             max (agents_per_class (edm_options sel))
               ((int (length cands) * agents_per_class (edm_options sel))
                  div classes_per_agent (edm_options sel) + 1) \<and>
           int (length (agents er)) = total_agents er \<and>
           (\<forall>c. sum_list (map (\<lambda>a. count_list (assigned_classes a) c) (agents er))
                  = nat (agents_per_class (edm_options sel)) * count_list cands c) \<and>
           (\<forall>a \<in> set (agents er). \<forall>c. count_list (assigned_classes a) c \<le> count_list cands c) \<and>
           (length cands = 10 \<and> classes_per_agent (edm_options sel) = 30 \<and>
              agents_per_class (edm_options sel) = 3
              \<longrightarrow> total_agents er = 3 \<and> (\<forall>a \<in> set (agents er). assigned_classes a = cands)))) \<and>
   (\<forall>n k. 1 \<le> n \<and> 0 \<le> k \<longrightarrow>
      (\<exists>asg w'. assign_classes_to_agents sel cands n k w = (Inr asg, w') \<and>
           int (length asg) = n \<and>
           (\<forall>c. sum_list (map (\<lambda>a. count_list a c) asg)
                  = (if n < k then nat n else nat k) * count_list cands c) \<and>
           (\<forall>a \<in> set asg. \<forall>c. count_list a c \<le> count_list cands c) \<and>
           (n \<le> k \<longrightarrow> (\<forall>a \<in> set asg. a = cands))))"
proof (intro conjI)
  show "cands = [] \<longrightarrow>
      select_edm sel tn tm col cands w
        = (Inr \<lparr>selected = [], status = ''completed'', error = None,
                llm_request = None, llm_response = None, edm_result = None\<rparr>, w)"
    by (simp add: select_edm_def)
  show "cands \<noteq> [] \<and> classes_per_agent (edm_options sel) \<noteq> 0 \<and>
    0 \<le> agents_per_class (edm_options sel) \<longrightarrow>
      (\<exists>res w' er.
           select_edm sel tn tm col cands w = (Inr res, w') \<and> edm_result res = Some er \<and>
           total_agents er =
             max (agents_per_class (edm_options sel))
               ((int (length cands) * agents_per_class (edm_options sel))
                  div classes_per_agent (edm_options sel) + 1) \<and>
           int (length (agents er)) = total_agents er \<and>
           (\<forall>c. sum_list (map (\<lambda>a. count_list (assigned_classes a) c) (agents er))
                  = nat (agents_per_class (edm_options sel)) * count_list cands c) \<and>
           (\<forall>a \<in> set (agents er). \<forall>c. count_list (assigned_classes a) c \<le> count_list cands c) \<and>
           (length cands = 10 \<and> classes_per_agent (edm_options sel) = 30 \<and>
              agents_per_class (edm_options sel) = 3
              \<longrightarrow> total_agents er = 3 \<and> (\<forall>a \<in> set (agents er). assigned_classes a = cands)))"
  proof
    assume h: "cands \<noteq> [] \<and> classes_per_agent (edm_options sel) \<noteq> 0 \<and>
      0 \<le> agents_per_class (edm_options sel)"
    show "\<exists>res w' er.
           select_edm sel tn tm col cands w = (Inr res, w') \<and> edm_result res = Some er \<and>
           total_agents er =
             max (agents_per_class (edm_options sel))
               ((int (length cands) * agents_per_class (edm_options sel))
                  div classes_per_agent (edm_options sel) + 1) \<and>
           int (length (agents er)) = total_agents er \<and>
           (\<forall>c. sum_list (map (\<lambda>a. count_list (assigned_classes a) c) (agents er))
                  = nat (agents_per_class (edm_options sel)) * count_list cands c) \<and>
           (\<forall>a \<in> set (agents er). \<forall>c. count_list (assigned_classes a) c \<le> count_list cands c) \<and>
           (length cands = 10 \<and> classes_per_agent (edm_options sel) = 30 \<and>
              agents_per_class (edm_options sel) = 3
              \<longrightarrow> total_agents er = 3 \<and> (\<forall>a \<in> set (agents er). assigned_classes a = cands))"
      by (rule ensemble_sizing_run [OF h [THEN conjunct2, THEN conjunct1]
            h [THEN conjunct2, THEN conjunct2] h [THEN conjunct1]])
  qed
  show "\<forall>n k. 1 \<le> n \<and> 0 \<le> k \<longrightarrow>
      (\<exists>asg w'. assign_classes_to_agents sel cands n k w = (Inr asg, w') \<and>
           int (length asg) = n \<and>
           (\<forall>c. sum_list (map (\<lambda>a. count_list a c) asg)
                  = (if n < k then nat n else nat k) * count_list cands c) \<and>
           (\<forall>a \<in> set asg. \<forall>c. count_list a c \<le> count_list cands c) \<and>
           (n \<le> k \<longrightarrow> (\<forall>a \<in> set asg. a = cands)))"
  proof (intro allI impI)
    fix n k :: int
    assume h: "1 \<le> n \<and> 0 \<le> k"
    show "\<exists>asg w'. assign_classes_to_agents sel cands n k w = (Inr asg, w') \<and>
           int (length asg) = n \<and>
           (\<forall>c. sum_list (map (\<lambda>a. count_list a c) asg)
                  = (if n < k then nat n else nat k) * count_list cands c) \<and>
           (\<forall>a \<in> set asg. \<forall>c. count_list a c \<le> count_list cands c) \<and>
           (n \<le> k \<longrightarrow> (\<forall>a \<in> set asg. a = cands))"
      by (rule assign_classes_general [OF h [THEN conjunct2] h [THEN conjunct1]])
  qed
qed

text \<open>Ten candidates under the default options, and two agents where three are asked for.\<close>

theorem ensemble_sizing_witness:
  "(\<exists>res w' er.
      select_edm (DetailedSelector_init ''edm'' llm_votes_A)
        ''table'' ''| a |'' ''col'' ten_candidates world0 = (Inr res, w') \<and>
      edm_result res = Some er \<and> total_agents er = 3 \<and> length (agents er) = 3 \<and>
      list_all (\<lambda>a. assigned_classes a = ten_candidates) (agents er)) \<and>
   (\<exists>asg w'. assign_classes_to_agents (DetailedSelector_init ''edm'' llm_votes_A)
                [''A'', ''B''] 2 3 world0 = (Inr asg, w') \<and>
             asg = [[''A'', ''B''], [''A'', ''B'']])"
proof (intro conjI)
  let ?sel = "DetailedSelector_init ''edm'' llm_votes_A"
  have o: "classes_per_agent (edm_options ?sel) = 30" "agents_per_class (edm_options ?sel) = 3"
    by (simp_all add: DetailedSelector_init_def default_edm_options_def)
  have h: "ten_candidates \<noteq> [] \<and> classes_per_agent (edm_options ?sel) \<noteq> 0 \<and>
      0 \<le> agents_per_class (edm_options ?sel)" "length ten_candidates = 10"
    using o by (simp_all add: ten_candidates_def)
  from ensemble_sizing [of ten_candidates ?sel "''table''" "''| a |''" "''col''" world0,
      THEN conjunct2, THEN conjunct1, rule_format, OF h(1)]
  obtain res w' er where
    r: "select_edm ?sel ''table'' ''| a |'' ''col'' ten_candidates world0 = (Inr res, w')"
       "edm_result res = Some er"
       "int (length (agents er)) = total_agents er"
       "length ten_candidates = 10 \<and> classes_per_agent (edm_options ?sel) = 30 \<and>
          agents_per_class (edm_options ?sel) = 3
          \<longrightarrow> total_agents er = 3 \<and> (\<forall>a \<in> set (agents er). assigned_classes a = ten_candidates)"
    by (elim exE conjE)
  from r(4) h(2) o have t: "total_agents er = 3"
    "\<forall>a \<in> set (agents er). assigned_classes a = ten_candidates" by simp_all
  from t(1) r(3) have "length (agents er) = 3" by simp
  with r(1,2) t show "\<exists>res w' er.
      select_edm ?sel ''table'' ''| a |'' ''col'' ten_candidates world0 = (Inr res, w') \<and>
      edm_result res = Some er \<and> total_agents er = 3 \<and> length (agents er) = 3 \<and>
      list_all (\<lambda>a. assigned_classes a = ten_candidates) (agents er)"
    by (intro exI [of _ res] exI [of _ w'] exI [of _ er]) (simp add: list_all_iff)
next
  let ?sel = "DetailedSelector_init ''edm'' llm_votes_A"
  have h: "(1::int) \<le> 2 \<and> (0::int) \<le> 3" by simp
  from ensemble_sizing [of "[''A'', ''B'']" ?sel "''table''" "''| a |''" "''col''" world0,
      THEN conjunct2, THEN conjunct2, rule_format, OF h]
  obtain asg w' where
    a: "assign_classes_to_agents ?sel [''A'', ''B''] 2 3 world0 = (Inr asg, w')"
       "int (length asg) = 2"
       "(2::int) \<le> 3 \<longrightarrow> (\<forall>a \<in> set asg. a = [''A'', ''B''])"
    by (elim exE conjE)
  from a(2) obtain x y where xy: "asg = [x, y]"
    by (cases asg; cases "tl asg"; cases "tl (tl asg)") auto
  with a(3) have "asg = [[''A'', ''B''], [''A'', ''B'']]" by simp
  with a(1) show "\<exists>asg w'. assign_classes_to_agents ?sel [''A'', ''B''] 2 3 world0 = (Inr asg, w') \<and>
             asg = [[''A'', ''B''], [''A'', ''B'']]"
    by (intro exI [of _ asg] exI [of _ w']) simp
qed

text \<open>
  Without candidates no agent is created, where the formula gives 3; with
  \<open>classes_per_agent = 0\<close> the invocation raises \<open>ZeroDivisionError\<close>, and with
  \<open>agents_per_class = -1\<close> it raises \<open>ValueError\<close>.
\<close>

theorem ensemble_sizing_counterexample:
  "select_edm (DetailedSelector_init ''edm'' llm_votes_A) ''table'' ''| a |'' ''col'' [] world0
     = (Inr \<lparr>selected = [], status = ''completed'', error = None,
             llm_request = None, llm_response = None, edm_result = None\<rparr>, world0) \<and>
   num_agents_for (edm_options (DetailedSelector_init ''edm'' llm_votes_A)) [] = 3 \<and>
   fst (select_edm
          (selector_with_options
             \<lparr>classes_per_agent = 0, agents_per_class = 3,
              consensus_threshold = Finite (to_double (8 / 10))\<rparr> llm_votes_A)
          ''table'' ''| a |'' ''col'' [''A''] world0)
     = Inl ZeroDivisionError \<and>
   fst (select_edm
          (selector_with_options
             \<lparr>classes_per_agent = 30, agents_per_class = - 1,
              consensus_threshold = Finite (to_double (8 / 10))\<rparr> llm_votes_A)
          ''table'' ''| a |'' ''col'' [''A''] world0)
     = Inl ValueError"
  by code_simp


section \<open>Main results on graph construction\<close>










end
